theory Spec2Isabelle
  imports Complex_Main "HOL-Library.Multiset" "HOL-Library.Sublist" "HOL-Library.Log_Nat"
begin

section \<open>The search-based Wordle agent of \<^verbatim>\<open>agent.py\<close>\<close>

text \<open>
  The development embeds class \<^verbatim>\<open>MyWordleAgent\<close> of \<^verbatim>\<open>src/agent.py\<close>.

  \<^item> A word is a Python \<^verbatim>\<open>str\<close>, here a \<open>string\<close>; a pool is a Python list of words.
  \<^item> A letter position is a Python \<^verbatim>\<open>int\<close>, here an \<open>int\<close>; indexing follows Python
    (a negative index counts from the end, an index out of range raises \<^verbatim>\<open>IndexError\<close>).
  \<^item> Every exception of the source is a value \<open>Inl e\<close> of a sum type.
  \<^item> A method that mutates \<^verbatim>\<open>self\<close> takes the agent and returns the outcome together
    with the agent as the call leaves it, also when the call raises.
  \<^item> The score is a Python number: \<^verbatim>\<open>1\<close> and \<^verbatim>\<open>pool_len\<close> are ints, the weighted sum is
    a float, that is an IEEE 754 double. A number is modelled by its exact value, a
    rational; every float operation rounds its exact result to the nearest double.
\<close>

subsection \<open>Exceptions and indexing\<close>

datatype py_error = IndexError | TypeError | AttributeError

text \<open>Python's \<^verbatim>\<open>s[i]\<close> on a sequence.\<close>

definition py_index :: "'a list \<Rightarrow> int \<Rightarrow> py_error + 'a" where
  "py_index s i =
     (if 0 \<le> i \<and> i < int (length s) then Inr (s ! nat i)
      else if i < 0 \<and> - int (length s) \<le> i then Inr (s ! nat (int (length s) + i))
      else Inl IndexError)"

subsection \<open>The partition function \<^verbatim>\<open>get_pool\<close>\<close>

text \<open>
  \<^verbatim>\<open>
  ret = ([], [], [])
  for word in pool:
      if guess[pos] == word[pos]: ret[0].append(word)
      elif guess[pos] in word: ret[1].append(word)
      else: ret[2].append(word)
  return ret
  \<close>
  The loop carries the three lists; \<^verbatim>\<open>guess[pos]\<close> is read before \<^verbatim>\<open>word[pos]\<close>, once
  per word, so an empty pool never indexes anything.
\<close>

fun get_pool_loop ::
  "string \<Rightarrow> int \<Rightarrow> string list \<Rightarrow> string list \<times> string list \<times> string list
     \<Rightarrow> py_error + (string list \<times> string list \<times> string list)" where
  "get_pool_loop guess pos [] ret = Inr ret"
| "get_pool_loop guess pos (word # rest) (ret0, ret1, ret2) =
     (case py_index guess pos of
        Inl e \<Rightarrow> Inl e
      | Inr c \<Rightarrow>
          (case py_index word pos of
             Inl e \<Rightarrow> Inl e
           | Inr d \<Rightarrow>
               if c = d then get_pool_loop guess pos rest (ret0 @ [word], ret1, ret2)
               else if c \<in> set word then get_pool_loop guess pos rest (ret0, ret1 @ [word], ret2)
               else get_pool_loop guess pos rest (ret0, ret1, ret2 @ [word])))"

definition get_pool ::
  "string \<Rightarrow> int \<Rightarrow> string list \<Rightarrow> py_error + (string list \<times> string list \<times> string list)" where
  "get_pool guess pos pool = get_pool_loop guess pos pool ([], [], [])"

subsection \<open>Python floats\<close>

text \<open>
  A double is a rational with 53 significant bits. \<open>round_double\<close> rounds a rational to
  the nearest double, ties to the even significand, as IEEE 754 does in its default mode
  and as CPython does for \<^verbatim>\<open>int / int\<close>, for \<^verbatim>\<open>float * float\<close>, for \<^verbatim>\<open>float + float\<close>
  and for the conversion of an \<^verbatim>\<open>int\<close> to a \<^verbatim>\<open>float\<close>. The exponent range is not modelled:
  a Python list holds fewer than \<open>2 ^ 63\<close> items, so every number below is 0 or lies
  between \<open>2 ^ -63\<close> and \<open>2 ^ 64\<close>, where a double is normal and nothing overflows.
\<close>

definition pow2 :: "int \<Rightarrow> rat" where
  "pow2 e = (if 0 \<le> e then 2 ^ nat e else 1 / 2 ^ nat (- e))"

text \<open>
  The exponent \<open>e\<close> with \<open>2 ^ e \<le> x < 2 ^ (e + 1)\<close>, for a positive \<open>x\<close>: one less than the
  bit length of \<open>\<lfloor>x\<rfloor>\<close> from 1 on, and below 1 the negated bit length of \<open>\<lceil>1 / x\<rceil> - 1\<close>.
\<close>

definition ilog2 :: "rat \<Rightarrow> int" where
  "ilog2 x = (if 1 \<le> x then bitlen \<lfloor>x\<rfloor> - 1 else - bitlen (\<lceil>1 / x\<rceil> - 1))"

text \<open>Rounding to the nearest integer, a tie going to the even one.\<close>

definition round_half_even :: "rat \<Rightarrow> int" where
  "round_half_even m =
     (let f = \<lfloor>m\<rfloor>; d = m - of_int f in
      if d < 1 / 2 then f
      else if 1 / 2 < d then f + 1
      else if even f then f else f + 1)"

definition round_double :: "rat \<Rightarrow> rat" where
  "round_double x =
     (if x = 0 then 0
      else
        let q = pow2 (ilog2 \<bar>x\<bar> - 52) in
        of_int (round_half_even (x / q)) * q)"

text \<open>Half a unit in the last place of 1: the largest relative error of one rounding.\<close>

definition unit_roundoff :: rat where
  "unit_roundoff = 1 / 2 ^ 53"

text \<open>
  \<^verbatim>\<open>a / b\<close> on two ints (true division, correctly rounded); \<^verbatim>\<open>x * y\<close> with a float
  \<open>x\<close> and an int or float \<open>y\<close> (an int is converted to a float first, a float is its own
  conversion); \<^verbatim>\<open>x + y\<close> on two floats. The scorer divides by \<^verbatim>\<open>pool_len\<close> only where
  \<^verbatim>\<open>pool_len > 1\<close>, so the \<^verbatim>\<open>ZeroDivisionError\<close> of a zero divisor cannot arise.
\<close>

definition int_truediv :: "nat \<Rightarrow> nat \<Rightarrow> rat" where
  "int_truediv a b = round_double (of_nat a / of_nat b)"

definition float_mul :: "rat \<Rightarrow> rat \<Rightarrow> rat" where
  "float_mul x y = round_double (x * round_double y)"

definition float_add :: "rat \<Rightarrow> rat \<Rightarrow> rat" where
  "float_add x y = round_double (x + y)"

subsection \<open>The score tree and the scorer\<close>

text \<open>
  A \<^verbatim>\<open>Node\<close> holds its pool and the three children \<^verbatim>\<open>green\<close>, \<^verbatim>\<open>yellow\<close>, \<^verbatim>\<open>grey\<close>, each
  \<^verbatim>\<open>None\<close> until \<^verbatim>\<open>calculate_score\<close> assigns it. A \<^verbatim>\<open>Tree\<close> holds the root word and the
  root node.
\<close>

datatype node = Node "string list" "node option" "node option" "node option"

fun node_pool :: "node \<Rightarrow> string list" where
  "node_pool (Node pool green yellow grey) = pool"

record tree =
  val :: string
  root_node :: node

text \<open>
  \<^verbatim>\<open>
  pool_len = len(node.pool)
  if pool_len <= MIN_POOL_SIZE: return 1
  if pos > LAST_POSITION: return pool_len
  green, yellow, grey = self.get_pool(guess, pos, node.pool)
  node.green = Node(green); node.yellow = Node(yellow); node.grey = Node(grey)
  green_score = (len(node.green.pool) / pool_len) * self.calculate_score(guess, pos + 1, node.green)
  yellow_score = ...; grey_score = ...
  return green_score + yellow_score + grey_score
  \<close>
  with \<^verbatim>\<open>MIN_POOL_SIZE = 1\<close> and \<^verbatim>\<open>LAST_POSITION = 4\<close>. The source mutates the node it is
  given; the model returns the score together with the node as the call leaves it. The
  quotient, the product and the two sums are Python's, each rounded to a double; the sum
  \<^verbatim>\<open>green_score + yellow_score + grey_score\<close> adds from the left.
\<close>

function calculate_score :: "string \<Rightarrow> int \<Rightarrow> node \<Rightarrow> py_error + (rat \<times> node)" where
  "calculate_score guess pos nd =
     (let pool_len = length (node_pool nd) in
      if pool_len \<le> 1 then Inr (1, nd)
      else if pos > 4 then Inr (of_nat pool_len, nd)
      else
        (case get_pool guess pos (node_pool nd) of
           Inl e \<Rightarrow> Inl e
         | Inr (green, yellow, grey) \<Rightarrow>
             (case calculate_score guess (pos + 1) (Node green None None None) of
                Inl e \<Rightarrow> Inl e
              | Inr (green_rec, green_node) \<Rightarrow>
                  (case calculate_score guess (pos + 1) (Node yellow None None None) of
                     Inl e \<Rightarrow> Inl e
                   | Inr (yellow_rec, yellow_node) \<Rightarrow>
                       (case calculate_score guess (pos + 1) (Node grey None None None) of
                          Inl e \<Rightarrow> Inl e
                        | Inr (grey_rec, grey_node) \<Rightarrow>
                            (let green_score =
                                   float_mul (int_truediv (length green) pool_len) green_rec;
                                 yellow_score =
                                   float_mul (int_truediv (length yellow) pool_len) yellow_rec;
                                 grey_score =
                                   float_mul (int_truediv (length grey) pool_len) grey_rec
                             in Inr (float_add (float_add green_score yellow_score) grey_score,
                                     Node (node_pool nd)
                                       (Some green_node) (Some yellow_node) (Some grey_node))))))))"
  by pat_completeness auto
termination
  by (relation "measure (\<lambda>(guess, pos, nd). nat (5 - pos))") auto

text \<open>
  \<^verbatim>\<open>recursive_build_tree\<close> builds a fresh tree on the agent's pool and scores it from
  position 0. The pool is the only field of the agent it reads.
\<close>

definition recursive_build_tree :: "string list \<Rightarrow> string \<Rightarrow> py_error + (tree \<times> rat)" where
  "recursive_build_tree pool guess =
     (case calculate_score guess 0 (Node pool None None None) of
        Inl e \<Rightarrow> Inl e
      | Inr (score, nd) \<Rightarrow> Inr (\<lparr>val = guess, root_node = nd\<rparr>, score))"

text \<open>The scalar the scorer returns for a guess, a position and a pool.\<close>

definition score_of :: "string \<Rightarrow> int \<Rightarrow> string list \<Rightarrow> py_error + rat" where
  "score_of guess pos pool = map_sum id fst (calculate_score guess pos (Node pool None None None))"

subsection \<open>The guess selector's sweep\<close>

text \<open>
  \<^verbatim>\<open>
  best_tree = None
  best_score = float('inf')
  for guess in self.can_guess:
      cur_tree, score = self.recursive_build_tree(guess)
      if score < best_score:
          best_tree = cur_tree
          best_score = score
  \<close>
  \<open>best_score = None\<close> stands for \<^verbatim>\<open>float('inf')\<close>, above every score. Python compares
  two numbers, int or float, by their exact values.
\<close>

fun find_guess_loop ::
  "string list \<Rightarrow> string list \<Rightarrow> tree option \<times> rat option
     \<Rightarrow> py_error + (tree option \<times> rat option)" where
  "find_guess_loop pool [] best = Inr best"
| "find_guess_loop pool (guess # rest) (best_tree, best_score) =
     (case recursive_build_tree pool guess of
        Inl e \<Rightarrow> Inl e
      | Inr (cur_tree, score) \<Rightarrow>
          if (case best_score of None \<Rightarrow> True | Some b \<Rightarrow> score < b)
          then find_guess_loop pool rest (Some cur_tree, Some score)
          else find_guess_loop pool rest (best_tree, best_score))"

subsection \<open>The agent\<close>

text \<open>
  The fields of \<^verbatim>\<open>MyWordleAgent\<close>. \<^verbatim>\<open>feedback_so_far\<close> and \<^verbatim>\<open>guess\<close> start as \<^verbatim>\<open>None\<close>.
  The cache is a \<^verbatim>\<open>dict\<close> from feedback strings to words.
\<close>

record agent =
  allowed :: "string list"
  possible :: "string list"
  pool :: "string list"
  can_guess :: "string list"
  cache :: "string \<rightharpoonup> string"
  feedback_so_far :: "string option"
  guess :: "string option"

text \<open>\<^verbatim>\<open>initialize_agent(allowed, possible)\<close>, that is \<^verbatim>\<open>MyWordleAgent.__init__\<close>.\<close>

definition initialize_agent :: "string list \<Rightarrow> string list \<Rightarrow> agent" where
  "initialize_agent allowed' possible' =
     \<lparr>allowed = allowed', possible = possible', pool = possible', can_guess = allowed',
      cache = Map.empty, feedback_so_far = None, guess = None\<rparr>"

text \<open>Python's \<^verbatim>\<open>dict.setdefault(k, v)\<close>: store \<open>v\<close> only when \<open>k\<close> is absent.\<close>

definition setdefault :: "('k \<rightharpoonup> 'v) \<Rightarrow> 'k \<Rightarrow> 'v \<Rightarrow> ('k \<rightharpoonup> 'v)" where
  "setdefault m k v = (case m k of None \<Rightarrow> m(k \<mapsto> v) | Some _ \<Rightarrow> m)"

text \<open>
  \<^verbatim>\<open>find_guess\<close>: the sweep, then
  \<^verbatim>\<open>
  if len(self.feedback_so_far) != 0: self.cache.setdefault(self.feedback_so_far, best_tree.val)
  return best_tree
  \<close>
  \<^verbatim>\<open>len(None)\<close> raises \<^verbatim>\<open>TypeError\<close>; \<^verbatim>\<open>best_tree.val\<close> on \<^verbatim>\<open>None\<close> raises
  \<^verbatim>\<open>AttributeError\<close>. The result is the tree, or Python's \<^verbatim>\<open>None\<close>.
\<close>

definition find_guess :: "agent \<Rightarrow> (py_error + tree option) \<times> agent" where
  "find_guess a =
     (case find_guess_loop (pool a) (can_guess a) (None, None) of
        Inl e \<Rightarrow> (Inl e, a)
      | Inr (best_tree, best_score) \<Rightarrow>
          (case feedback_so_far a of
             None \<Rightarrow> (Inl TypeError, a)
           | Some key \<Rightarrow>
               if length key \<noteq> 0 then
                 (case best_tree of
                    None \<Rightarrow> (Inl AttributeError, a)
                  | Some t \<Rightarrow> (Inr (Some t), a\<lparr>cache := setdefault (cache a) key (val t)\<rparr>))
               else (Inr best_tree, a)))"

text \<open>
  \<^verbatim>\<open>
  def first_guess(self):
      self.pool = self.possible
      self.can_guess = self.allowed
      self.feedback_so_far = ""
      if self.guess is None: self.guess = self.find_guess().val
      return self.guess
  \<close>
  The selector \<^verbatim>\<open>self.find_guess\<close> is a parameter \<open>sel\<close> of the model, so that a statement
  for every \<open>sel\<close> says that a call does not consult the selector.
\<close>

definition first_guess_via ::
  "(agent \<Rightarrow> (py_error + tree option) \<times> agent) \<Rightarrow> agent \<Rightarrow> (py_error + string) \<times> agent" where
  "first_guess_via sel a =
     (let a1 = a\<lparr>pool := possible a, can_guess := allowed a, feedback_so_far := Some []\<rparr> in
      case guess a1 of
        Some w \<Rightarrow> (Inr w, a1)
      | None \<Rightarrow>
          (case sel a1 of
             (Inl e, a2) \<Rightarrow> (Inl e, a2)
           | (Inr None, a2) \<Rightarrow> (Inl AttributeError, a2)
           | (Inr (Some t), a2) \<Rightarrow> (Inr (val t), a2\<lparr>guess := Some (val t)\<rparr>)))"

definition first_guess :: "agent \<Rightarrow> (py_error + string) \<times> agent" where
  "first_guess = first_guess_via find_guess"

text \<open>
  \<^verbatim>\<open>
  def next_guess(self):
      GUESS_RANDOM_POOL_SIZE = 3
      if len(self.pool) <= GUESS_RANDOM_POOL_SIZE: return self.pool[0]
      if self.feedback_so_far in self.cache: return self.cache.get(self.feedback_so_far)
      return self.find_guess().val
  \<close>
  The keys of the cache are strings, so \<^verbatim>\<open>None in self.cache\<close> is false.
\<close>

definition next_guess_via ::
  "(agent \<Rightarrow> (py_error + tree option) \<times> agent) \<Rightarrow> agent \<Rightarrow> (py_error + string) \<times> agent" where
  "next_guess_via sel a =
     (if length (pool a) \<le> 3 then (py_index (pool a) 0, a)
      else
        (case Option.bind (feedback_so_far a) (cache a) of
           Some w \<Rightarrow> (Inr w, a)
         | None \<Rightarrow>
             (case sel a of
                (Inl e, a2) \<Rightarrow> (Inl e, a2)
              | (Inr None, a2) \<Rightarrow> (Inl AttributeError, a2)
              | (Inr (Some t), a2) \<Rightarrow> (Inr (val t), a2))))"

definition next_guess :: "agent \<Rightarrow> (py_error + string) \<times> agent" where
  "next_guess = next_guess_via find_guess"

text \<open>
  \<^verbatim>\<open>
  def report_feedback(self, guess, feedback):
      self.pool = filter_possible_words(guess, feedback, self.pool)
      self.feedback_so_far += ''.join(feedback)
  \<close>
  \<^verbatim>\<open>filter_possible_words\<close> comes from the module \<^verbatim>\<open>util\<close>, which is not part of the
  sources at hand: it is the parameter \<open>fpw\<close>, a function that returns a pool or raises.
  The pool is assigned before the append is tried, so a failing append leaves the
  filtered pool behind. \<^verbatim>\<open>None += str\<close> raises \<^verbatim>\<open>TypeError\<close>.
\<close>

type_synonym filter_fn = "string \<Rightarrow> string list \<Rightarrow> string list \<Rightarrow> py_error + string list"

definition report_feedback ::
  "filter_fn \<Rightarrow> agent \<Rightarrow> string \<Rightarrow> string list \<Rightarrow> (py_error + unit) \<times> agent" where
  "report_feedback fpw a g feedback =
     (case fpw g feedback (pool a) of
        Inl e \<Rightarrow> (Inl e, a)
      | Inr filtered \<Rightarrow>
          (let a1 = a\<lparr>pool := filtered\<rparr> in
           case feedback_so_far a1 of
             None \<Rightarrow> (Inl TypeError, a1)
           | Some key \<Rightarrow> (Inr (), a1\<lparr>feedback_so_far := Some (key @ concat feedback)\<rparr>)))"

subsection \<open>A game driver\<close>

text \<open>
  The three methods are the agent's whole interface. A caller is a sequence of calls;
  \<open>step\<close> gives the agent after one call (whether it returned or raised) and \<open>run\<close>
  the agent after a sequence of them.
\<close>

datatype call = First_guess | Next_guess | Report_feedback string "string list"

fun step :: "filter_fn \<Rightarrow> agent \<Rightarrow> call \<Rightarrow> agent" where
  "step fpw a First_guess = snd (first_guess a)"
| "step fpw a Next_guess = snd (next_guess a)"
| "step fpw a (Report_feedback g feedback) = snd (report_feedback fpw a g feedback)"

definition run :: "filter_fn \<Rightarrow> agent \<Rightarrow> call list \<Rightarrow> agent" where
  "run fpw a calls = foldl (step fpw) a calls"

section \<open>Properties\<close>

subsection \<open>Indexing and the partition function\<close>

declare calculate_score.simps [simp del]

lemma py_index_in_range:
  "0 \<le> i \<Longrightarrow> i < int (length s) \<Longrightarrow> py_index s i = Inr (s ! nat i)"
  by (simp add: py_index_def)

lemma get_pool_loop_filter:
  assumes "0 \<le> p" "p < int (length g)" "\<forall>w\<in>set ws. p < int (length w)"
  shows "get_pool_loop g p ws (r0, r1, r2) =
    Inr (r0 @ filter (\<lambda>w. w ! nat p = g ! nat p) ws,
         r1 @ filter (\<lambda>w. w ! nat p \<noteq> g ! nat p \<and> g ! nat p \<in> set w) ws,
         r2 @ filter (\<lambda>w. w ! nat p \<noteq> g ! nat p \<and> g ! nat p \<notin> set w) ws)"
  using assms
proof (induction ws arbitrary: r0 r1 r2)
  case Nil
  show ?case by simp
next
  case (Cons w ws)
  then have pw: "py_index w p = Inr (w ! nat p)" and pg: "py_index g p = Inr (g ! nat p)"
    by (simp_all add: py_index_in_range)
  from Cons.prems have rest: "\<forall>w\<in>set ws. p < int (length w)" by simp
  show ?case
    using Cons.IH [OF Cons.prems(1) Cons.prems(2) rest]
    by (auto simp add: pw pg)
qed

lemma get_pool_filter:
  assumes "0 \<le> p" "p < int (length g)" "\<forall>w\<in>set ws. p < int (length w)"
  shows "get_pool g p ws =
    Inr (filter (\<lambda>w. w ! nat p = g ! nat p) ws,
         filter (\<lambda>w. w ! nat p \<noteq> g ! nat p \<and> g ! nat p \<in> set w) ws,
         filter (\<lambda>w. w ! nat p \<noteq> g ! nat p \<and> g ! nat p \<notin> set w) ws)"
  using get_pool_loop_filter [OF assms, of "[]" "[]" "[]"] by (simp add: get_pool_def)

lemma length_three_filters:
  "length (filter (\<lambda>w. A w) ws) + length (filter (\<lambda>w. \<not> A w \<and> B w) ws)
     + length (filter (\<lambda>w. \<not> A w \<and> \<not> B w) ws) = length ws"
  by (induction ws) auto

lemma mset_three_filters:
  "mset (filter (\<lambda>w. A w) ws) + mset (filter (\<lambda>w. \<not> A w \<and> B w) ws)
     + mset (filter (\<lambda>w. \<not> A w \<and> \<not> B w) ws) = mset ws"
  by (induction ws) auto

lemma get_pool_loop_length:
  "get_pool_loop g p ws (r0, r1, r2) = Inr (ex, pr, ab) \<Longrightarrow>
     length ex + length pr + length ab = length r0 + length r1 + length r2 + length ws"
proof (induction ws arbitrary: r0 r1 r2)
  case Nil
  then show ?case by simp
next
  case (Cons w ws)
  from Cons.prems show ?case
    by (auto split: sum.splits if_splits dest!: Cons.IH)
qed

lemma get_pool_length:
  "get_pool g p ws = Inr (ex, pr, ab) \<Longrightarrow> length ex + length pr + length ab = length ws"
  using get_pool_loop_length [of g p ws "[]" "[]" "[]" ex pr ab] by (simp add: get_pool_def)

text \<open>
  Claim C2. For a position \<open>p\<close> that is in range for the guess and for every word of the
  pool, \<open>get_pool\<close> returns three lists: the words whose letter at \<open>p\<close> is the guess's
  letter at \<open>p\<close>; of the others, those that contain that letter somewhere; and the rest.
  Each list keeps the pool's order (it is a filter of the pool, hence a subsequence), the
  three lists are pairwise disjoint, and together they hold every word of the pool exactly
  as often as the pool does.
\<close>

theorem get_pool_partition:
  assumes "0 \<le> p" "p < int (length g)" "\<forall>w\<in>set ws. p < int (length w)"
  shows "\<exists>ex pr ab.
    get_pool g p ws = Inr (ex, pr, ab)
    \<and> ex = filter (\<lambda>w. w ! nat p = g ! nat p) ws
    \<and> pr = filter (\<lambda>w. w ! nat p \<noteq> g ! nat p \<and> g ! nat p \<in> set w) ws
    \<and> ab = filter (\<lambda>w. w ! nat p \<noteq> g ! nat p \<and> g ! nat p \<notin> set w) ws
    \<and> set ex \<inter> set pr = {} \<and> set ex \<inter> set ab = {} \<and> set pr \<inter> set ab = {}
    \<and> subseq ex ws \<and> subseq pr ws \<and> subseq ab ws
    \<and> mset ex + mset pr + mset ab = mset ws"
proof -
  let ?c = "g ! nat p"
  let ?ex = "filter (\<lambda>w. w ! nat p = ?c) ws"
  let ?pr = "filter (\<lambda>w. w ! nat p \<noteq> ?c \<and> ?c \<in> set w) ws"
  let ?ab = "filter (\<lambda>w. w ! nat p \<noteq> ?c \<and> ?c \<notin> set w) ws"
  have gp: "get_pool g p ws = Inr (?ex, ?pr, ?ab)"
    by (rule get_pool_filter [OF assms])
  have d: "set ?ex \<inter> set ?pr = {}" "set ?ex \<inter> set ?ab = {}" "set ?pr \<inter> set ?ab = {}"
    by auto
  have s: "subseq ?ex ws" "subseq ?pr ws" "subseq ?ab ws"
    by simp_all
  have m: "mset ?ex + mset ?pr + mset ?ab = mset ws"
    by (rule mset_three_filters)
  from gp d s m show ?thesis by blast
qed

theorem get_pool_partition_witness:
  "\<exists>ex pr ab.
    get_pool ''ebony'' 0 [''birch'', ''beech'', ''cedar'', ''ebony'', ''maple''] = Inr (ex, pr, ab)
    \<and> ex = [''ebony''] \<and> pr = [''beech'', ''cedar'', ''maple''] \<and> ab = [''birch'']
    \<and> mset ex + mset pr + mset ab = mset [''birch'', ''beech'', ''cedar'', ''ebony'', ''maple'']"
  using get_pool_partition [of 0 "''ebony''" "[''birch'', ''beech'', ''cedar'', ''ebony'', ''maple'']"]
  by simp

text \<open>
  Claim C3. On the pool birch, beech, cedar, ebony, maple with guess birch at position 0
  the partition function does not return (birch | none | beech, cedar, ebony, maple):
  beech also starts with b, and ebony contains a b. It returns (birch, beech | ebony |
  cedar, maple), which is what \<^verbatim>\<open>Test_get_pool\<close> of \<^verbatim>\<open>unitTests.py\<close> asserts.
\<close>

theorem get_pool_birch_position_0:
  "get_pool ''birch'' 0 [''birch'', ''beech'', ''cedar'', ''ebony'', ''maple'']
     = Inr ([''birch'', ''beech''], [''ebony''], [''cedar'', ''maple''])"
  by (simp add: get_pool_def py_index_def)

text \<open>The result that the specification's scenario names is not the one computed.\<close>

theorem get_pool_birch_not_as_specified:
  "get_pool ''birch'' 0 [''birch'', ''beech'', ''cedar'', ''ebony'', ''maple'']
     \<noteq> Inr ([''birch''], [], [''beech'', ''cedar'', ''ebony'', ''maple''])"
  by (simp add: get_pool_def py_index_def)

subsection \<open>Rounding to a double\<close>

text \<open>Powers of two with an integer exponent, and the exponent of a positive rational.\<close>

lemma pow2_powi: "pow2 e = 2 powi e"
  by (simp add: pow2_def power_int_def field_simps)

lemma pow2_pos [simp]: "0 < pow2 e"
  by (simp add: pow2_powi)

lemma pow2_add: "pow2 (a + b) = pow2 a * pow2 b"
  by (simp add: pow2_powi power_int_add)

lemma pow2_0 [simp]: "pow2 0 = 1"
  by (simp add: pow2_def)

lemma pow2_nat: "pow2 (int n) = 2 ^ n"
  by (simp add: pow2_def)

lemma pow2_mono: "a \<le> b \<Longrightarrow> pow2 a \<le> pow2 b"
  by (simp add: pow2_powi power_int_increasing)

lemma pow2_less_iff: "pow2 a < pow2 b \<longleftrightarrow> a < b"
proof
  assume l: "pow2 a < pow2 b"
  show "a < b"
  proof (rule ccontr)
    assume "\<not> a < b"
    then have "pow2 b \<le> pow2 a" by (intro pow2_mono) simp
    with l show False by simp
  qed
next
  assume "a < b"
  then show "pow2 a < pow2 b"
    by (simp add: pow2_powi power_int_strict_increasing)
qed

lemma pow2_Suc: "pow2 (e + 1) = 2 * pow2 e"
  by (simp add: pow2_powi power_int_add)

lemma pow2_nonzero [simp]: "pow2 e \<noteq> 0"
  by (metis pow2_pos less_irrefl)

lemma pow2_nonneg [simp]: "0 \<le> pow2 e"
  by (rule less_imp_le) simp

lemma pow2_shift: "pow2 e = pow2 (e - int n) * 2 ^ n"
  using pow2_add [of "e - int n" "int n"] by (simp add: pow2_nat)

lemma ilog2_bounds:
  assumes "0 < x"
  shows "pow2 (ilog2 x) \<le> x" and "x < pow2 (ilog2 x + 1)"
proof -
  have "pow2 (ilog2 x) \<le> x \<and> x < pow2 (ilog2 x + 1)"
  proof (cases "1 \<le> x")
    case True
    let ?n = "\<lfloor>x\<rfloor>"
    have n: "0 < ?n" using True by simp
    from bitlen_bounds [OF n] have lo: "2 ^ nat (bitlen ?n - 1) \<le> ?n" and hi: "?n < 2 ^ nat (bitlen ?n)"
      by simp_all
    have b1: "1 \<le> bitlen ?n" using n by (simp add: bitlen_alt_def)
    have e: "ilog2 x = bitlen ?n - 1" using True by (simp add: ilog2_def)
    have "(of_int (2 ^ nat (bitlen ?n - 1)) :: rat) \<le> of_int ?n"
      using lo by (simp only: of_int_le_iff)
    also have "\<dots> \<le> x" by simp
    finally have l: "pow2 (ilog2 x) \<le> x"
      using b1 by (simp add: e pow2_def)
    have "?n + 1 \<le> 2 ^ nat (bitlen ?n)" using hi by simp
    then have "(of_int (?n + 1) :: rat) \<le> of_int (2 ^ nat (bitlen ?n))"
      by (simp only: of_int_le_iff)
    moreover have "x < of_int (?n + 1)" by linarith
    ultimately have "x < of_int (2 ^ nat (bitlen ?n))" by linarith
    then have h: "x < pow2 (ilog2 x + 1)"
      using b1 by (simp add: e pow2_def)
    from l h show ?thesis ..
  next
    case False
    then have x1: "x < 1" by simp
    let ?y = "1 / x"
    let ?m = "\<lceil>?y\<rceil> - 1"
    have y1: "1 < ?y" using assms x1 by simp
    have m: "0 < ?m" using y1 by (simp add: less_ceiling_iff)
    from bitlen_bounds [OF m] have lo: "2 ^ nat (bitlen ?m - 1) \<le> ?m" and hi: "?m < 2 ^ nat (bitlen ?m)"
      by simp_all
    have b1: "1 \<le> bitlen ?m" using m by (simp add: bitlen_alt_def)
    have e: "ilog2 x = - bitlen ?m" using False by (simp add: ilog2_def)
    have my: "of_int ?m < ?y" by linarith
    have ym: "?y \<le> of_int ?m + 1" by linarith
    have "?m + 1 \<le> 2 ^ nat (bitlen ?m)" using hi by simp
    then have "(of_int (?m + 1) :: rat) \<le> of_int (2 ^ nat (bitlen ?m))"
      by (simp only: of_int_le_iff)
    then have "(of_int ?m :: rat) + 1 \<le> 2 ^ nat (bitlen ?m)" by simp
    with ym have "?y \<le> 2 ^ nat (bitlen ?m)" by (rule order_trans)
    then have "1 \<le> x * 2 ^ nat (bitlen ?m)"
      using assms by (simp add: field_simps)
    then have l: "pow2 (ilog2 x) \<le> x"
      using b1 by (simp add: e pow2_def field_simps)
    have "(of_int (2 ^ nat (bitlen ?m - 1)) :: rat) \<le> of_int ?m"
      using lo by (simp only: of_int_le_iff)
    with my have "2 ^ nat (bitlen ?m - 1) < ?y" by simp
    then have xx: "x * 2 ^ nat (bitlen ?m - 1) < 1"
      using assms by (simp add: field_simps)
    have h: "x < pow2 (ilog2 x + 1)"
    proof (cases "bitlen ?m = 1")
      case True
      then show ?thesis using x1 by (simp add: e)
    next
      case False
      with b1 have "1 < bitlen ?m" by simp
      then have p: "pow2 (ilog2 x + 1) = 1 / 2 ^ nat (bitlen ?m - 1)"
        by (simp add: e pow2_def)
      have "x < 1 / 2 ^ nat (bitlen ?m - 1)"
        using xx by (simp add: pos_less_divide_eq)
      then show ?thesis by (simp only: p)
    qed
    from l h show ?thesis ..
  qed
  then show "pow2 (ilog2 x) \<le> x" and "x < pow2 (ilog2 x + 1)" by simp_all
qed

lemma ilog2_unique:
  assumes "0 < x" "pow2 e \<le> x" "x < pow2 (e + 1)"
  shows "ilog2 x = e"
proof -
  from ilog2_bounds [OF assms(1)] have
    l: "pow2 (ilog2 x) \<le> x" and h: "x < pow2 (ilog2 x + 1)" by simp_all
  from l assms(3) have "pow2 (ilog2 x) < pow2 (e + 1)" by simp
  then have a: "ilog2 x < e + 1" by (simp only: pow2_less_iff)
  from assms(2) h have "pow2 e < pow2 (ilog2 x + 1)" by simp
  then have b: "e < ilog2 x + 1" by (simp only: pow2_less_iff)
  from a b show ?thesis by simp
qed

lemma round_half_even_error: "\<bar>of_int (round_half_even m) - m\<bar> \<le> 1 / 2"
proof -
  let ?f = "\<lfloor>m\<rfloor>"
  let ?d = "m - of_int ?f"
  have d: "0 \<le> ?d" "?d < 1" by linarith+
  have "(round_half_even m = ?f \<and> ?d \<le> 1 / 2) \<or> (round_half_even m = ?f + 1 \<and> 1 / 2 \<le> ?d)"
  proof (cases "?d < 1 / 2")
    case True
    then show ?thesis by (simp add: round_half_even_def Let_def)
  next
    case False
    note nl = this
    show ?thesis
    proof (cases "1 / 2 < ?d")
      case True
      with nl show ?thesis by (simp add: round_half_even_def Let_def)
    next
      case False
      with nl have eq: "?d = 1 / 2" by simp
      have "round_half_even m = (if even ?f then ?f else ?f + 1)"
        using nl False unfolding round_half_even_def Let_def by (simp only: if_False)
      with eq show ?thesis by (cases "even ?f") simp_all
    qed
  qed
  then show ?thesis
    using d by (auto simp add: abs_le_iff)
qed

lemma round_half_even_of_int [simp]: "round_half_even (of_int k) = k"
  by (simp add: round_half_even_def)

text \<open>
  Rounding a non-negative number moves it by at most the fraction \<open>2 ^ -53\<close> of itself;
  a number that is an integer multiple of its own unit in the last place is its own
  rounding: every natural number below \<open>2 ^ 53\<close>, and every result of a rounding.
\<close>

lemma round_double_0 [simp]: "round_double 0 = 0"
  by (simp add: round_double_def)

lemma significand_range:
  assumes "0 < x"
  shows "2 ^ 52 \<le> x / pow2 (ilog2 x - 52)" and "x / pow2 (ilog2 x - 52) < 2 ^ 53"
proof -
  let ?e = "ilog2 x"
  have p: "pow2 ?e = pow2 (?e - 52) * 2 ^ 52"
    using pow2_shift [of ?e 52] by simp
  have p1: "pow2 (?e + 1) = pow2 (?e - 52) * 2 ^ 53"
    using pow2_shift [of "?e + 1" 53] by simp
  from ilog2_bounds [OF assms] have l: "pow2 (?e - 52) * 2 ^ 52 \<le> x"
    and h: "x < pow2 (?e - 52) * 2 ^ 53"
    by (simp_all only: p p1)
  show "2 ^ 52 \<le> x / pow2 (?e - 52)"
    using l by (simp add: pos_le_divide_eq mult.commute)
  show "x / pow2 (?e - 52) < 2 ^ 53"
    using h by (simp add: pos_divide_less_eq mult.commute)
qed

lemma round_double_error:
  assumes "0 \<le> x"
  shows "\<bar>round_double x - x\<bar> \<le> x / 2 ^ 53"
proof (cases "x = 0")
  case True
  then show ?thesis by simp
next
  case False
  with assms have pos: "0 < x" by simp
  let ?q = "pow2 (ilog2 x - 52)"
  let ?m = "x / ?q"
  let ?r = "round_half_even ?m"
  have q: "0 < ?q" by simp
  have rd: "round_double x = of_int ?r * ?q"
    using pos by (simp add: round_double_def Let_def)
  have "round_double x - x = (of_int ?r - ?m) * ?q"
    using q by (simp add: rd field_simps)
  then have "\<bar>round_double x - x\<bar> = \<bar>of_int ?r - ?m\<bar> * ?q"
    using q by (simp add: abs_mult abs_of_pos)
  also have "\<dots> \<le> 1 / 2 * ?q"
    using round_half_even_error [of ?m] q by (intro mult_right_mono) simp_all
  also have "\<dots> \<le> x / 2 ^ 53"
  proof -
    from significand_range(1) [OF pos] have "2 ^ 52 * ?q \<le> x"
      using q by (simp add: pos_le_divide_eq)
    then show ?thesis by simp
  qed
  finally show ?thesis .
qed

lemma round_double_lower:
  assumes "0 \<le> x"
  shows "(1 - 1 / 2 ^ 53) * x \<le> round_double x"
proof -
  from round_double_error [OF assms] have "x - round_double x \<le> x / 2 ^ 53"
    by (simp only: abs_le_iff) simp
  then have "x - x / 2 ^ 53 \<le> round_double x" by linarith
  then show ?thesis by (simp add: algebra_simps)
qed

lemma round_double_upper:
  assumes "0 \<le> x"
  shows "round_double x \<le> (1 + 1 / 2 ^ 53) * x"
proof -
  from round_double_error [OF assms] have "round_double x - x \<le> x / 2 ^ 53"
    by (simp only: abs_le_iff)
  then have "round_double x \<le> x + x / 2 ^ 53" by linarith
  then show ?thesis by (simp add: algebra_simps)
qed

lemma round_double_nonneg:
  assumes "0 \<le> x"
  shows "0 \<le> round_double x"
proof -
  have "0 \<le> (1 - 1 / 2 ^ 53) * x" using assms by simp
  also have "\<dots> \<le> round_double x" by (rule round_double_lower [OF assms])
  finally show ?thesis .
qed

lemma round_double_exact:
  assumes "0 < x" "pow2 e \<le> x" "x < pow2 (e + 1)" "x = of_int k * pow2 (e - 52)"
  shows "round_double x = x"
proof -
  have e: "ilog2 x = e" using assms(1-3) by (rule ilog2_unique)
  have m: "x / pow2 (e - 52) = of_int k"
    using assms(4) by simp
  have "round_double x = of_int (round_half_even (x / pow2 (e - 52))) * pow2 (e - 52)"
    using assms(1) by (simp add: round_double_def Let_def e)
  also have "\<dots> = of_int k * pow2 (e - 52)"
    by (simp only: m round_half_even_of_int)
  finally show ?thesis by (simp only: assms(4))
qed

lemma round_double_of_nat:
  assumes "n < 2 ^ 53"
  shows "round_double (of_nat n) = of_nat n"
proof (cases "n = 0")
  case True
  then show ?thesis by simp
next
  case False
  let ?x = "of_nat n :: rat"
  let ?e = "ilog2 ?x"
  have pos: "0 < ?x" using False by simp
  from ilog2_bounds [OF pos] have l: "pow2 ?e \<le> ?x" and h: "?x < pow2 (?e + 1)" by simp_all
  have "?x < 2 ^ 53" using assms by (metis of_nat_less_iff of_nat_numeral of_nat_power)
  with l have "pow2 ?e < pow2 53" using pow2_nat [of 53] by simp
  then have e53: "?e < 53" by (simp only: pow2_less_iff)
  define j where "j = nat (52 - ?e)"
  have j: "?e - 52 = - int j" using e53 by (simp add: j_def)
  have q: "pow2 (?e - 52) * 2 ^ j = 1"
    using pow2_shift [of 0 j] by (simp add: j)
  have "?x = of_int (int n * 2 ^ j) * pow2 (?e - 52)"
    using q by (simp add: mult.assoc mult.commute [of "2 ^ j"])
  with pos l h show ?thesis by (rule round_double_exact)
qed

lemma round_double_idem:
  assumes "0 \<le> x"
  shows "round_double (round_double x) = round_double x"
proof (cases "x = 0")
  case True
  then show ?thesis by simp
next
  case False
  with assms have pos: "0 < x" by simp
  let ?e = "ilog2 x"
  let ?q = "pow2 (?e - 52)"
  let ?m = "x / ?q"
  let ?r = "round_half_even ?m"
  have q: "0 < ?q" by simp
  have rd: "round_double x = of_int ?r * ?q"
    using pos by (simp add: round_double_def Let_def)
  from significand_range [OF pos] have m: "2 ^ 52 \<le> ?m" "?m < 2 ^ 53" by simp_all
  from round_half_even_error [of ?m] have
    "of_int ?r - ?m \<le> 1 / 2" "- (of_int ?r - ?m) \<le> 1 / 2"
    by (simp_all only: abs_le_iff)
  then have "?m - 1 / 2 \<le> of_int ?r" "of_int ?r \<le> ?m + 1 / 2"
    by linarith+
  with m have "(2 ^ 52 :: rat) - 1 / 2 \<le> of_int ?r" "(of_int ?r :: rat) < 2 ^ 53 + 1 / 2"
    by linarith+
  then have "(of_int (2 ^ 52 - 1) :: rat) < of_int ?r" "(of_int ?r :: rat) < of_int (2 ^ 53 + 1)"
    by simp_all
  then have r: "2 ^ 52 \<le> ?r" "?r \<le> 2 ^ 53"
    by (simp_all only: of_int_less_iff)
  have pe: "pow2 ?e = 2 ^ 52 * ?q"
    using pow2_shift [of ?e 52] by simp
  have pe1: "pow2 (?e + 1) = 2 ^ 53 * ?q"
    using pow2_shift [of "?e + 1" 53] by simp
  have rpos: "0 < round_double x"
    using r(1) q by (simp add: rd zero_less_mult_iff)
  have lo: "pow2 ?e \<le> round_double x"
  proof -
    have "(of_int (2 ^ 52) :: rat) \<le> of_int ?r" using r(1) by (simp only: of_int_le_iff)
    then have "2 ^ 52 * ?q \<le> of_int ?r * ?q" using q by (intro mult_right_mono) simp_all
    then show ?thesis by (simp only: pe rd)
  qed
  show ?thesis
  proof (cases "?r = 2 ^ 53")
    case True
    then have v: "round_double x = pow2 (?e + 1)" by (simp add: rd pe1)
    have "pow2 (?e + 1) = of_int (2 ^ 52) * pow2 (?e + 1 - 52)"
      using pow2_shift [of "?e + 1" 52] by simp
    moreover have "pow2 (?e + 1) < pow2 (?e + 1 + 1)" by (simp only: pow2_less_iff)
    ultimately have "round_double (pow2 (?e + 1)) = pow2 (?e + 1)"
      by (intro round_double_exact [of _ "?e + 1" "2 ^ 52"]) simp_all
    then show ?thesis by (simp only: v)
  next
    case False
    with r(2) have "?r < 2 ^ 53" by simp
    then have "(of_int ?r :: rat) < of_int (2 ^ 53)" by (simp only: of_int_less_iff)
    then have "of_int ?r * ?q < 2 ^ 53 * ?q" using q by (intro mult_strict_right_mono) simp_all
    then have hi: "round_double x < pow2 (?e + 1)" by (simp only: pe1 rd)
    from rpos lo hi rd show ?thesis by (rule round_double_exact)
  qed
qed

lemma unit_roundoff_range: "0 < unit_roundoff" "unit_roundoff < 1"
  by (simp_all add: unit_roundoff_def)

lemma round_lower:
  assumes "0 \<le> x"
  shows "(1 - unit_roundoff) * x \<le> round_double x"
  using round_double_lower [OF assms] by (simp add: unit_roundoff_def)

lemma round_upper:
  assumes "0 \<le> x"
  shows "round_double x \<le> (1 + unit_roundoff) * x"
  using round_double_upper [OF assms] by (simp add: unit_roundoff_def)

lemma round_double_1 [simp]: "round_double 1 = 1"
  using round_double_of_nat [of 1] by simp

lemma int_truediv_nonneg: "0 \<le> int_truediv a n"
  unfolding int_truediv_def by (rule round_double_nonneg) simp

lemma int_truediv_all: "0 < n \<Longrightarrow> int_truediv n n = 1"
  by (simp add: int_truediv_def)

lemma int_truediv_none: "int_truediv 0 n = 0"
  by (simp add: int_truediv_def)

lemma float_mul_nonneg: "0 \<le> x \<Longrightarrow> 0 \<le> s \<Longrightarrow> 0 \<le> float_mul x s"
  unfolding float_mul_def by (intro round_double_nonneg mult_nonneg_nonneg)

text \<open>
  One weighted term \<^verbatim>\<open>(k / n) * s\<close> takes two roundings, the sum of three terms two more.
\<close>

lemma term_lower:
  assumes "0 \<le> s" "round_double s = s"
  shows "(1 - unit_roundoff) ^ 2 * (of_nat a / of_nat n * s) \<le> float_mul (int_truediv a n) s"
proof -
  let ?u = unit_roundoff
  define q :: rat where "q = of_nat a / of_nat n"
  have q: "0 \<le> q" by (simp add: q_def)
  have u: "0 \<le> 1 - ?u" using unit_roundoff_range by simp
  have w: "(1 - ?u) * q \<le> int_truediv a n"
    unfolding int_truediv_def q_def [symmetric] by (rule round_lower [OF q])
  have w0: "0 \<le> int_truediv a n" by (rule int_truediv_nonneg)
  have "(1 - ?u) ^ 2 * (q * s) = (1 - ?u) * (((1 - ?u) * q) * s)"
    by (simp add: power2_eq_square mult.assoc)
  also have "\<dots> \<le> (1 - ?u) * (int_truediv a n * s)"
    using w assms(1) u by (intro mult_left_mono mult_right_mono)
  also have "\<dots> \<le> round_double (int_truediv a n * s)"
    using w0 assms(1) by (intro round_lower mult_nonneg_nonneg)
  finally show ?thesis by (simp add: float_mul_def assms(2) q_def)
qed

lemma term_upper:
  assumes "0 \<le> s" "round_double s = s"
  shows "float_mul (int_truediv a n) s \<le> (1 + unit_roundoff) ^ 2 * (of_nat a / of_nat n * s)"
proof -
  let ?u = unit_roundoff
  define q :: rat where "q = of_nat a / of_nat n"
  have q: "0 \<le> q" by (simp add: q_def)
  have u: "0 \<le> 1 + ?u" using unit_roundoff_range by simp
  have w: "int_truediv a n \<le> (1 + ?u) * q"
    unfolding int_truediv_def q_def [symmetric] by (rule round_upper [OF q])
  have w0: "0 \<le> int_truediv a n" by (rule int_truediv_nonneg)
  have "float_mul (int_truediv a n) s = round_double (int_truediv a n * s)"
    by (simp add: float_mul_def assms(2))
  also have "\<dots> \<le> (1 + ?u) * (int_truediv a n * s)"
    using w0 assms(1) by (intro round_upper mult_nonneg_nonneg)
  also have "\<dots> \<le> (1 + ?u) * (((1 + ?u) * q) * s)"
    using w assms(1) u by (intro mult_left_mono mult_right_mono)
  also have "\<dots> = (1 + ?u) ^ 2 * (q * s)"
    by (simp add: power2_eq_square mult.assoc)
  finally show ?thesis by (simp only: q_def)
qed

lemma square_factor:
  fixes v :: rat
  shows "v * (v * (t1 + t2) + v * t3) = v ^ 2 * (t1 + t2 + t3)"
  by (simp add: power2_eq_square distrib_left mult.assoc)

lemma sum3_lower:
  assumes "0 \<le> t1" "0 \<le> t2" "0 \<le> t3"
  shows "(1 - unit_roundoff) ^ 2 * (t1 + t2 + t3) \<le> float_add (float_add t1 t2) t3"
proof -
  let ?u = unit_roundoff
  have u: "0 \<le> 1 - ?u" "1 - ?u \<le> 1" using unit_roundoff_range by simp_all
  have a: "(1 - ?u) * (t1 + t2) \<le> float_add t1 t2"
    unfolding float_add_def using assms by (intro round_lower) simp
  have a0: "0 \<le> float_add t1 t2"
    unfolding float_add_def using assms by (intro round_double_nonneg) simp
  have "(1 - ?u) * t3 \<le> 1 * t3"
    using u(2) assms(3) by (intro mult_right_mono)
  then have t3: "(1 - ?u) * t3 \<le> t3" by simp
  have "(1 - ?u) ^ 2 * (t1 + t2 + t3) = (1 - ?u) * ((1 - ?u) * (t1 + t2) + (1 - ?u) * t3)"
    by (rule square_factor [symmetric])
  also have "\<dots> \<le> (1 - ?u) * (float_add t1 t2 + t3)"
    using a t3 u(1) by (intro mult_left_mono add_mono)
  also have "\<dots> \<le> float_add (float_add t1 t2) t3"
    unfolding float_add_def [of "float_add t1 t2" t3] using a0 assms(3) by (intro round_lower) simp
  finally show ?thesis .
qed

lemma sum3_upper:
  assumes "0 \<le> t1" "0 \<le> t2" "0 \<le> t3"
  shows "float_add (float_add t1 t2) t3 \<le> (1 + unit_roundoff) ^ 2 * (t1 + t2 + t3)"
proof -
  let ?u = unit_roundoff
  have u: "0 \<le> 1 + ?u" "1 \<le> 1 + ?u" using unit_roundoff_range by simp_all
  have a: "float_add t1 t2 \<le> (1 + ?u) * (t1 + t2)"
    unfolding float_add_def using assms by (intro round_upper) simp
  have a0: "0 \<le> float_add t1 t2"
    unfolding float_add_def using assms by (intro round_double_nonneg) simp
  have "1 * t3 \<le> (1 + ?u) * t3"
    using u(2) assms(3) by (intro mult_right_mono)
  then have t3: "t3 \<le> (1 + ?u) * t3" by simp
  have "float_add (float_add t1 t2) t3 \<le> (1 + ?u) * (float_add t1 t2 + t3)"
    unfolding float_add_def [of "float_add t1 t2" t3] using a0 assms(3) by (intro round_upper) simp
  also have "\<dots> \<le> (1 + ?u) * ((1 + ?u) * (t1 + t2) + (1 + ?u) * t3)"
    using a t3 u(1) by (intro mult_left_mono add_mono)
  also have "\<dots> = (1 + ?u) ^ 2 * (t1 + t2 + t3)"
    by (rule square_factor)
  finally show ?thesis .
qed

text \<open>Evaluation of the float operations on numerals by rewriting.\<close>

lemma bitlen_numeral_eval:
  "bitlen 1 = 1"
  "bitlen (numeral (Num.Bit0 k)) = bitlen (numeral k) + 1"
  "bitlen (numeral (Num.Bit1 k)) = bitlen (numeral k) + 1"
  by (subst compute_bitlen, simp)+

lemma floor_numeral_fraction:
  "\<lfloor>numeral a / numeral b :: rat\<rfloor> = numeral a div numeral b"
  using floor_divide_of_int_eq [of "numeral a" "numeral b", where ?'a = rat] by simp

lemma ceiling_numeral_fraction:
  "\<lceil>numeral a / numeral b :: rat\<rceil> = - (- numeral a div numeral b)"
  using floor_divide_of_int_eq [of "- numeral a" "numeral b", where ?'a = rat]
  by (simp add: ceiling_def)

lemmas float_eval = round_double_def ilog2_def round_half_even_def pow2_def Let_def
  int_truediv_def float_mul_def float_add_def bitlen_numeral_eval
  floor_numeral_fraction ceiling_numeral_fraction

subsection \<open>The scorer\<close>

text \<open>
  The score depends on the node's pool only, and \<open>score_of\<close> unfolds like the source's
  recursion, with every exception passed on. For words of at least five letters the
  scorer returns.
\<close>

lemma score_of_unfold:
  "score_of g p ws =
     (if length ws \<le> 1 then Inr 1
      else if p > 4 then Inr (of_nat (length ws))
      else
        (case get_pool g p ws of
           Inl e \<Rightarrow> Inl e
         | Inr (ex, pr, ab) \<Rightarrow>
             (case score_of g (p + 1) ex of
                Inl e \<Rightarrow> Inl e
              | Inr s1 \<Rightarrow>
                  (case score_of g (p + 1) pr of
                     Inl e \<Rightarrow> Inl e
                   | Inr s2 \<Rightarrow>
                       (case score_of g (p + 1) ab of
                          Inl e \<Rightarrow> Inl e
                        | Inr s3 \<Rightarrow>
                            Inr (float_add
                                   (float_add
                                      (float_mul (int_truediv (length ex) (length ws)) s1)
                                      (float_mul (int_truediv (length pr) (length ws)) s2))
                                   (float_mul (int_truediv (length ab) (length ws)) s3)))))))"
  unfolding score_of_def
  by (subst calculate_score.simps) (simp add: Let_def split: sum.splits prod.splits)


lemma score_of_returns:
  assumes "0 \<le> p" "5 \<le> length g" "\<forall>w\<in>set ws. 5 \<le> length w"
  shows "\<exists>s. score_of g p ws = Inr s"
  using assms
proof (induction "nat (5 - p)" arbitrary: p ws)
  case 0
  then have "4 < p" by simp
  then show ?case by (subst score_of_unfold) simp
next
  case (Suc k)
  show ?case
  proof (cases "length ws \<le> 1 \<or> 4 < p")
    case True
    then show ?thesis by (subst score_of_unfold) auto
  next
    case False
    then have big: "1 < length ws" and p4: "p \<le> 4" by simp_all
    let ?c = "g ! nat p"
    let ?ex = "filter (\<lambda>w. w ! nat p = ?c) ws"
    let ?pr = "filter (\<lambda>w. w ! nat p \<noteq> ?c \<and> ?c \<in> set w) ws"
    let ?ab = "filter (\<lambda>w. w ! nat p \<noteq> ?c \<and> ?c \<notin> set w) ws"
    have gp: "get_pool g p ws = Inr (?ex, ?pr, ?ab)"
      using Suc.prems p4 by (intro get_pool_filter) auto
    have k: "k = nat (5 - (p + 1))" using Suc.hyps(2) by simp
    have p1: "0 \<le> p + 1" using Suc.prems(1) by simp
    obtain s1 where s1: "score_of g (p + 1) ?ex = Inr s1"
      using Suc.hyps(1) [OF k p1 Suc.prems(2), of ?ex] Suc.prems(3) by auto
    obtain s2 where s2: "score_of g (p + 1) ?pr = Inr s2"
      using Suc.hyps(1) [OF k p1 Suc.prems(2), of ?pr] Suc.prems(3) by auto
    obtain s3 where s3: "score_of g (p + 1) ?ab = Inr s3"
      using Suc.hyps(1) [OF k p1 Suc.prems(2), of ?ab] Suc.prems(3) by auto
    show ?thesis
      using big p4 by (subst score_of_unfold) (simp add: gp s1 s2 s3 not_le)
  qed
qed

lemmas score_eval = score_of_unfold get_pool_def py_index_def float_eval

lemma score_six_words:
  "score_of ''beast'' 0 [''stone'', ''shark'', ''crisp'', ''beast'', ''moist'', ''found''] = Inr 1"
  "score_of ''slate'' 0 [''stone'', ''shark'', ''crisp'', ''beast'', ''moist'', ''found'']
     = Inr (9007199254740991 / 9007199254740992)"
  by (simp_all add: score_eval)



text \<open>
  The bounds of one level. Three scores that are doubles, each at least \<open>L\<close> and at most
  the size of its bucket (at most 1 for an empty bucket), give a score that is a double,
  at least \<open>L\<close> less four roundings, and at most the size of the pool: either one bucket
  is the whole pool and the score is that bucket's score, or every bucket is smaller and
  the sum of the squares of the sizes leaves room for the roundings.
\<close>

lemma squares_of_a_split:
  fixes a b c n :: nat
  assumes "a + b + c = n" "a < n" "b < n" "c < n"
  shows "a * a + b * b + c * c + 2 * n \<le> n * n + 2"
proof -
  have pair: "x + y \<le> x * y + 1" if "1 \<le> x" "1 \<le> y" for x y :: nat
  proof -
    from that obtain x' y' where "x = Suc x'" "y = Suc y'"
      by (metis Suc_le_D One_nat_def)
    then show ?thesis by simp
  qed
  have cross: "a + b + c \<le> a * b + a * c + b * c + 1"
  proof (cases "a = 0")
    case True
    with assms have "1 \<le> b" "1 \<le> c" by simp_all
    with True pair [of b c] show ?thesis by simp
  next
    case False
    note a = this
    show ?thesis
    proof (cases "b = 0")
      case True
      with assms a have "1 \<le> a" "1 \<le> c" by simp_all
      with True pair [of a c] show ?thesis by simp
    next
      case False
      note b = this
      show ?thesis
      proof (cases "c = 0")
        case True
        with a b pair [of a b] show ?thesis by simp
      next
        case False
        with a b have "a \<le> a * b" "c \<le> a * c" "b \<le> b * c" by simp_all
        then show ?thesis by linarith
      qed
    qed
  qed
  define p where "p = a * b + a * c + b * c"
  have "n * n = a * a + b * b + c * c + (p + p)"
    unfolding assms(1) [symmetric] p_def by (simp add: algebra_simps)
  moreover have "n \<le> p + 1" using cross assms(1) by (simp add: p_def)
  ultimately show ?thesis by linarith
qed

lemma four_roundings: "(1 + unit_roundoff) ^ 4 \<le> 1 + 1 / 2 ^ 50"
proof -
  let ?u = unit_roundoff
  have u: "0 \<le> ?u" "?u \<le> 1 / 9" "8 * ?u = 1 / 2 ^ 50"
    by (simp_all add: unit_roundoff_def)
  have uu: "?u * ?u \<le> 1 / 9 * ?u"
    using u(1,2) by (intro mult_right_mono)
  have "(1 + ?u) ^ 2 = 1 + 2 * ?u + ?u * ?u"
    by (simp add: power2_eq_square algebra_simps)
  also have "\<dots> \<le> 1 + 3 * ?u" using uu u(1) by simp
  finally have two: "(1 + ?u) ^ 2 \<le> 1 + 3 * ?u" .
  have "(1 + ?u) ^ 4 = ((1 + ?u) ^ 2) ^ 2" by (simp only: power_mult [symmetric]) simp
  also have "\<dots> \<le> (1 + 3 * ?u) ^ 2"
    using two by (intro power_mono) simp_all
  also have "\<dots> = 1 + 6 * ?u + 9 * (?u * ?u)"
    by (simp add: power2_eq_square algebra_simps)
  also have "\<dots> \<le> 1 + 8 * ?u" using uu u(1) by simp
  finally show ?thesis by (simp only: u(3))
qed

lemma split_slack:
  fixes N :: rat
  assumes "2 \<le> N" "N \<le> 2 ^ 50"
  shows "(1 + unit_roundoff) ^ 4 * (N * N - 2 * N + 2) \<le> N * N"
proof -
  define P where "P = N * N - 2 * N + 2"
  define d :: rat where "d = 1 / 2 ^ 50"
  have d0: "0 \<le> d" by (simp add: d_def)
  have P0: "0 \<le> P"
  proof -
    have "0 \<le> (N - 1) * (N - 1)" by simp
    then have "0 \<le> N * N - 2 * N + 1" by (simp add: algebra_simps)
    then show ?thesis unfolding P_def by linarith
  qed
  have "P \<le> N * N" using assms(1) by (simp add: P_def)
  also have "\<dots> \<le> 2 ^ 50 * N" using assms by (intro mult_right_mono) simp_all
  finally have "d * P \<le> d * (2 ^ 50 * N)" using d0 by (rule mult_left_mono)
  also have "\<dots> = N" by (simp add: d_def)
  also have "\<dots> \<le> 2 * N - 2" using assms(1) by simp
  finally have dP: "d * P \<le> 2 * N - 2" .
  have "(1 + unit_roundoff) ^ 4 \<le> 1 + d" unfolding d_def by (rule four_roundings)
  then have "(1 + unit_roundoff) ^ 4 * P \<le> (1 + d) * P"
    using P0 by (rule mult_right_mono)
  also have "\<dots> = P + d * P" by (simp only: distrib_right mult_1)
  also have "\<dots> \<le> P + (2 * N - 2)" using dP by (rule add_left_mono)
  also have "\<dots> = N * N" by (simp add: P_def)
  finally show ?thesis unfolding P_def .
qed

lemma level_bounds:
  fixes s1 s2 s3 L :: rat
  assumes sum: "a + b + c = n" and n: "2 \<le> n" "n \<le> 2 ^ 50"
    and rep: "round_double s1 = s1" "round_double s2 = s2" "round_double s3 = s3"
    and lo: "0 \<le> L" "L \<le> s1" "L \<le> s2" "L \<le> s3"
    and hi: "s1 \<le> max 1 (of_nat a)" "s2 \<le> max 1 (of_nat b)" "s3 \<le> max 1 (of_nat c)"
  shows "round_double (float_add (float_add (float_mul (int_truediv a n) s1)
            (float_mul (int_truediv b n) s2)) (float_mul (int_truediv c n) s3))
         = float_add (float_add (float_mul (int_truediv a n) s1)
            (float_mul (int_truediv b n) s2)) (float_mul (int_truediv c n) s3)"
    and "(1 - unit_roundoff) ^ 4 * L
         \<le> float_add (float_add (float_mul (int_truediv a n) s1)
            (float_mul (int_truediv b n) s2)) (float_mul (int_truediv c n) s3)"
    and "float_add (float_add (float_mul (int_truediv a n) s1)
            (float_mul (int_truediv b n) s2)) (float_mul (int_truediv c n) s3)
         \<le> of_nat n"
proof -
  let ?u = unit_roundoff
  let ?N = "of_nat n :: rat"
  define t1 where "t1 = float_mul (int_truediv a n) s1"
  define t2 where "t2 = float_mul (int_truediv b n) s2"
  define t3 where "t3 = float_mul (int_truediv c n) s3"
  let ?S = "float_add (float_add t1 t2) t3"
  have s0: "0 \<le> s1" "0 \<le> s2" "0 \<le> s3" using lo by simp_all
  have t0: "0 \<le> t1" "0 \<le> t2" "0 \<le> t3"
    unfolding t1_def t2_def t3_def using s0 by (simp_all add: float_mul_nonneg int_truediv_nonneg)
  have a0: "0 \<le> float_add t1 t2"
    unfolding float_add_def using t0 by (intro round_double_nonneg) simp
  have Npos: "0 < ?N" using n(1) by simp
  have um: "0 \<le> (1 - ?u) ^ 2" by simp
  have up: "0 \<le> (1 + ?u) ^ 2" by simp

  have "round_double ?S = ?S"
    unfolding float_add_def [of "float_add t1 t2" t3]
    using a0 t0(3) by (intro round_double_idem) simp
  then show "round_double (float_add (float_add (float_mul (int_truediv a n) s1)
            (float_mul (int_truediv b n) s2)) (float_mul (int_truediv c n) s3))
         = float_add (float_add (float_mul (int_truediv a n) s1)
            (float_mul (int_truediv b n) s2)) (float_mul (int_truediv c n) s3)"
    by (simp only: t1_def t2_def t3_def)

  have term_lo: "(1 - ?u) ^ 2 * (of_nat k / ?N * L) \<le> float_mul (int_truediv k n) s"
    if "L \<le> s" "round_double s = s" for k s
  proof -
    have s: "0 \<le> s" using that(1) lo(1) by simp
    have "of_nat k / ?N * L \<le> of_nat k / ?N * s"
      using that(1) by (intro mult_left_mono) simp_all
    then have "(1 - ?u) ^ 2 * (of_nat k / ?N * L) \<le> (1 - ?u) ^ 2 * (of_nat k / ?N * s)"
      using um by (rule mult_left_mono)
    also have "\<dots> \<le> float_mul (int_truediv k n) s"
      using s that(2) by (rule term_lower)
    finally show ?thesis .
  qed
  have one: "of_nat a / ?N * L + of_nat b / ?N * L + of_nat c / ?N * L = L"
  proof -
    have "of_nat a / ?N * L + of_nat b / ?N * L + of_nat c / ?N * L
          = (of_nat a + of_nat b + of_nat c) / ?N * L"
      by (simp add: add_divide_distrib distrib_right)
    also have "(of_nat a + of_nat b + of_nat c :: rat) = ?N"
      unfolding sum [symmetric] by simp
    finally show ?thesis using Npos by simp
  qed
  have "(1 - ?u) ^ 2 * L
        = (1 - ?u) ^ 2 * (of_nat a / ?N * L) + (1 - ?u) ^ 2 * (of_nat b / ?N * L)
          + (1 - ?u) ^ 2 * (of_nat c / ?N * L)"
    by (simp only: distrib_left [symmetric] one)
  also have "\<dots> \<le> t1 + t2 + t3"
    unfolding t1_def t2_def t3_def
    using term_lo [OF lo(2) rep(1)] term_lo [OF lo(3) rep(2)] term_lo [OF lo(4) rep(3)]
    by (intro add_mono)
  finally have "(1 - ?u) ^ 2 * ((1 - ?u) ^ 2 * L) \<le> (1 - ?u) ^ 2 * (t1 + t2 + t3)"
    using um by (rule mult_left_mono)
  also have "\<dots> \<le> ?S" using t0 by (rule sum3_lower)
  finally have "(1 - ?u) ^ 4 * L \<le> ?S"
    by (simp add: mult.assoc [symmetric] power_add [symmetric])
  then show "(1 - unit_roundoff) ^ 4 * L
         \<le> float_add (float_add (float_mul (int_truediv a n) s1)
            (float_mul (int_truediv b n) s2)) (float_mul (int_truediv c n) s3)"
    by (simp only: t1_def t2_def t3_def)

  have "?S \<le> ?N"
  proof (cases "a = n \<or> b = n \<or> c = n")
    case True
    then consider "a = n" "b = 0" "c = 0" | "b = n" "a = 0" "c = 0" | "c = n" "a = 0" "b = 0"
      using sum by auto
    then show ?thesis
    proof cases
      case 1
      then have "?S = s1"
        using n(1) by (simp add: t1_def t2_def t3_def float_add_def float_mul_def
            int_truediv_all int_truediv_none rep)
      with hi(1) 1 n(1) show ?thesis by simp
    next
      case 2
      then have "?S = s2"
        using n(1) by (simp add: t1_def t2_def t3_def float_add_def float_mul_def
            int_truediv_all int_truediv_none rep)
      with hi(2) 2 n(1) show ?thesis by simp
    next
      case 3
      then have "?S = s3"
        using n(1) by (simp add: t1_def t2_def t3_def float_add_def float_mul_def
            int_truediv_all int_truediv_none rep)
      with hi(3) 3 n(1) show ?thesis by simp
    qed
  next
    case False
    with sum have lt: "a < n" "b < n" "c < n" by simp_all
    have term_hi: "float_mul (int_truediv k n) s \<le> (1 + ?u) ^ 2 * (of_nat (k * k) / ?N)"
      if "0 \<le> s" "round_double s = s" "s \<le> max 1 (of_nat k)" for k s
    proof -
      have ks: "of_nat k * s \<le> (of_nat (k * k) :: rat)"
      proof (cases "k = 0")
        case True
        then show ?thesis by simp
      next
        case False
        then have "max 1 (of_nat k) = (of_nat k :: rat)" by (simp add: max_def)
        with that(3) have "s \<le> of_nat k" by simp
        then have "of_nat k * s \<le> (of_nat k :: rat) * of_nat k"
          by (intro mult_left_mono) simp_all
        then show ?thesis by simp
      qed
      have "float_mul (int_truediv k n) s \<le> (1 + ?u) ^ 2 * (of_nat k / ?N * s)"
        using that(1,2) by (rule term_upper)
      also have "of_nat k / ?N * s = of_nat k * s / ?N" by simp
      also have "(1 + ?u) ^ 2 * (of_nat k * s / ?N) \<le> (1 + ?u) ^ 2 * (of_nat (k * k) / ?N)"
        using ks Npos up by (intro mult_left_mono divide_right_mono) simp_all
      finally show ?thesis .
    qed
    have sq: "(of_nat (a * a) + of_nat (b * b) + of_nat (c * c) :: rat) \<le> ?N * ?N - 2 * ?N + 2"
    proof -
      from squares_of_a_split [OF sum lt]
      have "(of_nat (a * a + b * b + c * c + 2 * n) :: rat) \<le> of_nat (n * n + 2)"
        by (simp only: of_nat_le_iff)
      then show ?thesis by simp
    qed
    have N2: "(2::rat) \<le> ?N" "?N \<le> 2 ^ 50"
      using n by (simp_all add: of_nat_le_iff [where ?'a = rat, of _ "2 ^ 50", simplified])
    have "?S \<le> (1 + ?u) ^ 2 * (t1 + t2 + t3)" using t0 by (rule sum3_upper)
    also have "\<dots> \<le> (1 + ?u) ^ 2
        * ((1 + ?u) ^ 2 * (of_nat (a * a) / ?N) + (1 + ?u) ^ 2 * (of_nat (b * b) / ?N)
            + (1 + ?u) ^ 2 * (of_nat (c * c) / ?N))"
      unfolding t1_def t2_def t3_def
      using term_hi [OF s0(1) rep(1) hi(1)] term_hi [OF s0(2) rep(2) hi(2)]
        term_hi [OF s0(3) rep(3) hi(3)] up
      by (intro mult_left_mono add_mono)
    also have "\<dots> = (1 + ?u) ^ 4 * ((of_nat (a * a) + of_nat (b * b) + of_nat (c * c)) / ?N)"
      by (simp only: distrib_left [symmetric] add_divide_distrib [symmetric] mult.assoc [symmetric]
          power_add [symmetric]) simp
    also have "\<dots> \<le> (1 + ?u) ^ 4 * ((?N * ?N - 2 * ?N + 2) / ?N)"
      using sq Npos by (intro mult_left_mono divide_right_mono) simp_all
    also have "\<dots> = ((1 + ?u) ^ 4 * (?N * ?N - 2 * ?N + 2)) / ?N" by simp
    also have "\<dots> \<le> (?N * ?N) / ?N"
      using split_slack [OF N2] Npos by (intro divide_right_mono) simp_all
    also have "\<dots> = ?N" using Npos by simp
    finally show ?thesis .
  qed
  then show "float_add (float_add (float_mul (int_truediv a n) s1)
            (float_mul (int_truediv b n) s2)) (float_mul (int_truediv c n) s3)
         \<le> of_nat n"
    by (simp only: t1_def t2_def t3_def)
qed

lemma power_roundoff_le_1: "(1 - unit_roundoff) ^ k \<le> 1"
  using unit_roundoff_range by (intro power_le_one) simp_all

lemma power_roundoff_nonneg: "0 \<le> (1 - unit_roundoff) ^ k"
  using unit_roundoff_range by simp

lemma score_of_float_bounds:
  assumes "score_of g p ws = Inr s" "length ws \<le> 2 ^ 50"
  shows "round_double s = s
         \<and> (1 - unit_roundoff) ^ (4 * nat (5 - p)) \<le> s
         \<and> s \<le> max 1 (of_nat (length ws))"
  using assms
proof (induction "nat (5 - p)" arbitrary: p ws s)
  case 0
  then have p: "4 < p" by simp
  show ?case
  proof (cases "length ws \<le> 1")
    case True
    with 0(2) have "s = 1" by (subst (asm) score_of_unfold) simp
    then show ?thesis using 0(1) [symmetric] by simp
  next
    case False
    with 0(2) p have s: "s = of_nat (length ws)" by (subst (asm) score_of_unfold) simp
    have "length ws < 2 ^ 53" using "0.prems"(2) by (rule le_less_trans) simp
    then have "round_double (of_nat (length ws)) = of_nat (length ws)"
      by (rule round_double_of_nat)
    moreover have "(1::rat) \<le> of_nat (length ws)" using False by simp
    ultimately show ?thesis using 0(1) [symmetric] by (simp add: s)
  qed
next
  case (Suc k)
  show ?case
  proof (cases "length ws \<le> 1")
    case True
    with Suc.prems(1) have "s = 1" by (subst (asm) score_of_unfold) simp
    then show ?thesis by (simp add: power_roundoff_le_1)
  next
    case False
    then have big: "2 \<le> length ws" by simp
    have p4: "p \<le> 4" using Suc.hyps(2) by simp
    have k: "k = nat (5 - (p + 1))" using Suc.hyps(2) by simp
    from Suc.prems(1) big p4 obtain ex pr ab s1 s2 s3 where
      gp: "get_pool g p ws = Inr (ex, pr, ab)" and
      r1: "score_of g (p + 1) ex = Inr s1" and
      r2: "score_of g (p + 1) pr = Inr s2" and
      r3: "score_of g (p + 1) ab = Inr s3" and
      s: "s = float_add (float_add (float_mul (int_truediv (length ex) (length ws)) s1)
              (float_mul (int_truediv (length pr) (length ws)) s2))
              (float_mul (int_truediv (length ab) (length ws)) s3)"
      by (subst (asm) score_of_unfold) (auto simp add: not_le split: sum.splits)
    have len: "length ex + length pr + length ab = length ws"
      by (rule get_pool_length [OF gp])
    then have small: "length ex \<le> 2 ^ 50" "length pr \<le> 2 ^ 50" "length ab \<le> 2 ^ 50"
      using Suc.prems(2) by simp_all
    note b1 = Suc.hyps(1) [OF k r1 small(1)]
      and b2 = Suc.hyps(1) [OF k r2 small(2)]
      and b3 = Suc.hyps(1) [OF k r3 small(3)]
    let ?L = "(1 - unit_roundoff) ^ (4 * k)"
    have L: "0 \<le> ?L" by (rule power_roundoff_nonneg)
    have lo: "?L \<le> s1" "?L \<le> s2" "?L \<le> s3"
      using b1 b2 b3 by (simp_all add: k)
    have rep: "round_double s1 = s1" "round_double s2 = s2" "round_double s3 = s3"
      using b1 b2 b3 by simp_all
    have hi: "s1 \<le> max 1 (of_nat (length ex))" "s2 \<le> max 1 (of_nat (length pr))"
      "s3 \<le> max 1 (of_nat (length ab))"
      using b1 b2 b3 by simp_all
    note lv = level_bounds [OF len big Suc.prems(2) rep L lo hi]
    have e: "(1 - unit_roundoff) ^ 4 * ?L = (1 - unit_roundoff) ^ (4 * nat (5 - p))"
      using Suc.hyps(2) [symmetric] by (simp add: power_add [symmetric])
    have "s \<le> max 1 (of_nat (length ws))"
      using lv(3) unfolding s by simp
    with lv(1,2) show ?thesis unfolding s e by simp
  qed
qed

lemma bernoulli_down:
  fixes x :: rat
  assumes "0 \<le> x" "x \<le> 1"
  shows "1 - of_nat k * x \<le> (1 - x) ^ k"
proof (induction k)
  case 0
  show ?case by simp
next
  case (Suc k)
  have x2: "0 \<le> of_nat k * (x * x)" using assms(1) by simp
  have "1 - of_nat (Suc k) * x \<le> 1 - of_nat (Suc k) * x + of_nat k * (x * x)"
    using x2 by simp
  also have "\<dots> = (1 - x) * (1 - of_nat k * x)" by (simp add: algebra_simps)
  also have "\<dots> \<le> (1 - x) * (1 - x) ^ k"
    using Suc.IH assms(2) by (intro mult_left_mono) simp_all
  finally show ?case by simp
qed

lemma twenty_roundings: "1 - 1 / 2 ^ 48 \<le> (1 - unit_roundoff) ^ 20"
proof -
  have "(1::rat) - 1 / 2 ^ 48 \<le> 1 - of_nat 20 * unit_roundoff"
    by (simp add: unit_roundoff_def)
  also have "\<dots> \<le> (1 - unit_roundoff) ^ 20"
    using unit_roundoff_range by (intro bernoulli_down) simp_all
  finally show ?thesis .
qed

text \<open>
  Claim C4, as amended. For every guess: on a pool of at most one word the scorer returns
  exactly 1; whenever it returns a score for a non-empty pool (of at most \<open>2 ^ 50\<close> words),
  the score is at most the size of the pool and at least \<open>1 - 2 ^ -48\<close>, the twenty
  roundings of five levels being able to bring it below 1; and it does return a score
  when the guess and the pool's words have at least five letters.
\<close>

theorem score_in_range:
  "(length ws \<le> 1 \<longrightarrow> score_of g 0 ws = Inr 1)
   \<and> (\<forall>s. ws \<noteq> [] \<and> length ws \<le> 2 ^ 50 \<and> score_of g 0 ws = Inr s \<longrightarrow>
          1 - 1 / 2 ^ 48 \<le> s \<and> s \<le> of_nat (length ws))
   \<and> (5 \<le> length g \<and> (\<forall>w\<in>set ws. 5 \<le> length w) \<longrightarrow> (\<exists>s. score_of g 0 ws = Inr s))"
proof (intro conjI impI allI)
  show "score_of g 0 ws = Inr 1" if "length ws \<le> 1"
    using that by (subst score_of_unfold) simp
  show "\<exists>s. score_of g 0 ws = Inr s" if "5 \<le> length g \<and> (\<forall>w\<in>set ws. 5 \<le> length w)"
    using that by (intro score_of_returns) simp_all
  fix s
  assume h: "ws \<noteq> [] \<and> length ws \<le> 2 ^ 50 \<and> score_of g 0 ws = Inr s"
  then have sc: "score_of g 0 ws = Inr s" and len: "length ws \<le> 2 ^ 50" by simp_all
  from score_of_float_bounds [OF sc len] have
    lo: "(1 - unit_roundoff) ^ 20 \<le> s" and hi: "s \<le> max 1 (of_nat (length ws))"
    by simp_all
  from twenty_roundings lo show "1 - 1 / 2 ^ 48 \<le> s" by (rule order_trans)
  from h have "(1::rat) \<le> of_nat (length ws)" by (cases ws) simp_all
  with hi show "s \<le> of_nat (length ws)" by (simp add: max_def)
qed

theorem score_in_range_witness:
  "score_of ''ebony'' 0 [''cedar''] = Inr 1
   \<and> (\<exists>s. score_of ''slate'' 0 [''stone'', ''shark'', ''crisp'', ''beast'', ''moist'', ''found''] = Inr s
          \<and> 1 - 1 / 2 ^ 48 \<le> s \<and> s \<le> 6)"
proof -
  let ?six = "[''stone'', ''shark'', ''crisp'', ''beast'', ''moist'', ''found'']"
  note six = score_in_range [of ?six "''slate''"]
  from six obtain s where s: "score_of ''slate'' 0 ?six = Inr s"
    by auto
  have "?six \<noteq> [] \<and> length ?six \<le> 2 ^ 50" by simp
  with six s have "1 - 1 / 2 ^ 48 \<le> s \<and> s \<le> of_nat (length ?six)" by blast
  then have "1 - 1 / 2 ^ 48 \<le> s \<and> s \<le> 6" by simp
  with s show ?thesis
    using score_in_range [of "[''cedar'']" "''ebony''"] by auto
qed

text \<open>
  The range from 1 to the pool size of claim C4 fails twice. For the guess slate on the
  pool stone, shark, crisp, beast, moist, found the scorer returns \<open>1 - 2 ^ -53\<close>, the
  double printed as 0.9999999999999999, which is below 1. On the empty pool it returns 1,
  which is above the pool size 0.
\<close>

theorem score_out_of_range:
  "score_of ''slate'' 0 [''stone'', ''shark'', ''crisp'', ''beast'', ''moist'', ''found'']
     = Inr (9007199254740991 / 9007199254740992)
   \<and> \<not> (1 \<le> (9007199254740991 / 9007199254740992 :: rat))
   \<and> score_of ''slate'' 0 [] = Inr 1
   \<and> \<not> ((1::rat) \<le> of_nat (length ([] :: string list)))"
  by (simp add: score_six_words) (simp add: score_of_unfold)

subsection \<open>The guess selector\<close>

text \<open>
  A returned score gives a returned tree rooted at the guess. The sweep, started with any
  best pair, either leaves it (no guess scores strictly below it) or ends on the first
  guess of least score.
\<close>

lemma recursive_build_tree_score:
  assumes "score_of g 0 ws = Inr s"
  shows "\<exists>t. recursive_build_tree ws g = Inr (t, s) \<and> val t = g"
  using assms unfolding score_of_def recursive_build_tree_def
  by (cases "calculate_score g 0 (Node ws None None None)") auto

lemma find_guess_loop_first_min:
  assumes "\<forall>g\<in>set gs. score_of g 0 ws = Inr (sc g)"
  shows "\<exists>bt' bs'. find_guess_loop ws gs (bt, bs) = Inr (bt', bs') \<and>
    ((bt' = bt \<and> bs' = bs \<and> (\<forall>g\<in>set gs. \<forall>b. bs = Some b \<longrightarrow> b \<le> sc g) \<and> (gs \<noteq> [] \<longrightarrow> bs \<noteq> None))
     \<or> (\<exists>i t. i < length gs \<and> bt' = Some t \<and> val t = gs ! i \<and> bs' = Some (sc (gs ! i))
            \<and> (\<forall>b. bs = Some b \<longrightarrow> sc (gs ! i) < b)
            \<and> (\<forall>j<length gs. sc (gs ! i) \<le> sc (gs ! j))
            \<and> (\<forall>j<i. sc (gs ! i) < sc (gs ! j))))"
  using assms
proof (induction gs arbitrary: bt bs)
  case Nil
  show ?case by simp
next
  case (Cons g gs)
  from Cons.prems have sg: "score_of g 0 ws = Inr (sc g)"
    and rest: "\<forall>g\<in>set gs. score_of g 0 ws = Inr (sc g)" by simp_all
  from recursive_build_tree_score [OF sg] obtain t where
    t: "recursive_build_tree ws g = Inr (t, sc g)" "val t = g" by blast
  show ?case
  proof (cases "case bs of None \<Rightarrow> True | Some b \<Rightarrow> sc g < b")
    case True
    then have step: "find_guess_loop ws (g # gs) (bt, bs) = find_guess_loop ws gs (Some t, Some (sc g))"
      by (simp add: t)
    from Cons.IH [OF rest, of "Some t" "Some (sc g)"] obtain bt' bs' where
      r: "find_guess_loop ws gs (Some t, Some (sc g)) = Inr (bt', bs')" and
      d: "(bt' = Some t \<and> bs' = Some (sc g) \<and> (\<forall>h\<in>set gs. sc g \<le> sc h))
          \<or> (\<exists>i u. i < length gs \<and> bt' = Some u \<and> val u = gs ! i \<and> bs' = Some (sc (gs ! i))
                \<and> sc (gs ! i) < sc g
                \<and> (\<forall>j<length gs. sc (gs ! i) \<le> sc (gs ! j))
                \<and> (\<forall>j<i. sc (gs ! i) < sc (gs ! j)))"
      by auto
    from d show ?thesis
    proof
      assume a: "bt' = Some t \<and> bs' = Some (sc g) \<and> (\<forall>h\<in>set gs. sc g \<le> sc h)"
      have all: "\<forall>j<length (g # gs). sc ((g # gs) ! 0) \<le> sc ((g # gs) ! j)"
      proof (intro allI impI)
        fix j assume "j < length (g # gs)"
        then show "sc ((g # gs) ! 0) \<le> sc ((g # gs) ! j)"
          using a by (cases j) auto
      qed
      have "0 < length (g # gs) \<and> bt' = Some t \<and> val t = (g # gs) ! 0
            \<and> bs' = Some (sc ((g # gs) ! 0))
            \<and> (\<forall>b. bs = Some b \<longrightarrow> sc ((g # gs) ! 0) < b)
            \<and> (\<forall>j<length (g # gs). sc ((g # gs) ! 0) \<le> sc ((g # gs) ! j))
            \<and> (\<forall>j<0. sc ((g # gs) ! 0) < sc ((g # gs) ! j))"
        using a t(2) True all by (auto split: option.splits)
      then show ?thesis unfolding step r by blast
    next
      assume "\<exists>i u. i < length gs \<and> bt' = Some u \<and> val u = gs ! i \<and> bs' = Some (sc (gs ! i))
                \<and> sc (gs ! i) < sc g
                \<and> (\<forall>j<length gs. sc (gs ! i) \<le> sc (gs ! j))
                \<and> (\<forall>j<i. sc (gs ! i) < sc (gs ! j))"
      then obtain i u where i: "i < length gs" "bt' = Some u" "val u = gs ! i"
        "bs' = Some (sc (gs ! i))" "sc (gs ! i) < sc g"
        "\<forall>j<length gs. sc (gs ! i) \<le> sc (gs ! j)" "\<forall>j<i. sc (gs ! i) < sc (gs ! j)"
        by blast
      have all: "\<forall>j<length (g # gs). sc ((g # gs) ! Suc i) \<le> sc ((g # gs) ! j)"
      proof (intro allI impI)
        fix j assume "j < length (g # gs)"
        then show "sc ((g # gs) ! Suc i) \<le> sc ((g # gs) ! j)"
          using i(5,6) by (cases j) auto
      qed
      have before: "\<forall>j<Suc i. sc ((g # gs) ! Suc i) < sc ((g # gs) ! j)"
      proof (intro allI impI)
        fix j assume "j < Suc i"
        then show "sc ((g # gs) ! Suc i) < sc ((g # gs) ! j)"
          using i(5,7) by (cases j) auto
      qed
      have "Suc i < length (g # gs) \<and> bt' = Some u \<and> val u = (g # gs) ! Suc i
            \<and> bs' = Some (sc ((g # gs) ! Suc i))
            \<and> (\<forall>b. bs = Some b \<longrightarrow> sc ((g # gs) ! Suc i) < b)
            \<and> (\<forall>j<length (g # gs). sc ((g # gs) ! Suc i) \<le> sc ((g # gs) ! j))
            \<and> (\<forall>j<Suc i. sc ((g # gs) ! Suc i) < sc ((g # gs) ! j))"
        using i(1-5) True all before by (auto split: option.splits)
      then show ?thesis unfolding step r by blast
    qed
  next
    case False
    then obtain b where b: "bs = Some b" "b \<le> sc g"
      by (auto split: option.splits)
    have step: "find_guess_loop ws (g # gs) (bt, bs) = find_guess_loop ws gs (bt, bs)"
      using b by (simp add: t)
    from Cons.IH [OF rest, of bt bs] obtain bt' bs' where
      r: "find_guess_loop ws gs (bt, bs) = Inr (bt', bs')" and
      d: "(bt' = bt \<and> bs' = bs \<and> (\<forall>h\<in>set gs. b \<le> sc h))
          \<or> (\<exists>i u. i < length gs \<and> bt' = Some u \<and> val u = gs ! i \<and> bs' = Some (sc (gs ! i))
                \<and> sc (gs ! i) < b
                \<and> (\<forall>j<length gs. sc (gs ! i) \<le> sc (gs ! j))
                \<and> (\<forall>j<i. sc (gs ! i) < sc (gs ! j)))"
      using b(1) by auto
    from d show ?thesis
    proof
      assume "bt' = bt \<and> bs' = bs \<and> (\<forall>h\<in>set gs. b \<le> sc h)"
      then show ?thesis unfolding step r using b by auto
    next
      assume "\<exists>i u. i < length gs \<and> bt' = Some u \<and> val u = gs ! i \<and> bs' = Some (sc (gs ! i))
                \<and> sc (gs ! i) < b
                \<and> (\<forall>j<length gs. sc (gs ! i) \<le> sc (gs ! j))
                \<and> (\<forall>j<i. sc (gs ! i) < sc (gs ! j))"
      then obtain i u where i: "i < length gs" "bt' = Some u" "val u = gs ! i"
        "bs' = Some (sc (gs ! i))" "sc (gs ! i) < b"
        "\<forall>j<length gs. sc (gs ! i) \<le> sc (gs ! j)" "\<forall>j<i. sc (gs ! i) < sc (gs ! j)"
        by blast
      have lt: "sc (gs ! i) < sc g" using i(5) b(2) by simp
      have all: "\<forall>j<length (g # gs). sc ((g # gs) ! Suc i) \<le> sc ((g # gs) ! j)"
      proof (intro allI impI)
        fix j assume "j < length (g # gs)"
        then show "sc ((g # gs) ! Suc i) \<le> sc ((g # gs) ! j)"
          using lt i(6) by (cases j) auto
      qed
      have before: "\<forall>j<Suc i. sc ((g # gs) ! Suc i) < sc ((g # gs) ! j)"
      proof (intro allI impI)
        fix j assume "j < Suc i"
        then show "sc ((g # gs) ! Suc i) < sc ((g # gs) ! j)"
          using lt i(7) by (cases j) auto
      qed
      have "Suc i < length (g # gs) \<and> bt' = Some u \<and> val u = (g # gs) ! Suc i
            \<and> bs' = Some (sc ((g # gs) ! Suc i))
            \<and> (\<forall>c. bs = Some c \<longrightarrow> sc ((g # gs) ! Suc i) < c)
            \<and> (\<forall>j<length (g # gs). sc ((g # gs) ! Suc i) \<le> sc ((g # gs) ! j))
            \<and> (\<forall>j<Suc i. sc ((g # gs) ! Suc i) < sc ((g # gs) ! j))"
        using i(1-5) b(1) all before by auto
      then show ?thesis unfolding step r by blast
    qed
  qed
qed

text \<open>\<open>find_guess\<close> changes no field but the cache, and adds at most the current key.\<close>

lemma find_guess_frame:
  "\<exists>c. snd (find_guess a) = a\<lparr>cache := c\<rparr>
     \<and> (c = cache a
        \<or> (\<exists>k v. feedback_so_far a = Some k \<and> k \<noteq> [] \<and> cache a k = None \<and> c = (cache a)(k \<mapsto> v)))"
proof -
  have same: "a\<lparr>cache := cache a\<rparr> = a" by simp
  show ?thesis
    unfolding find_guess_def setdefault_def
    by (auto split: sum.splits option.splits prod.splits intro: exI [of _ "cache a"])
qed

lemma find_guess_fields:
  "allowed (snd (find_guess a)) = allowed a"
  "possible (snd (find_guess a)) = possible a"
  "pool (snd (find_guess a)) = pool a"
  "can_guess (snd (find_guess a)) = can_guess a"
  "feedback_so_far (snd (find_guess a)) = feedback_so_far a"
  "guess (snd (find_guess a)) = guess a"
  using find_guess_frame [of a] by auto

lemma find_guess_cache_kept:
  "cache a k = Some v \<Longrightarrow> cache (snd (find_guess a)) k = Some v"
  using find_guess_frame [of a] by auto

lemma find_guess_cache_new:
  "cache a k = None \<Longrightarrow> cache (snd (find_guess a)) k \<noteq> None \<Longrightarrow>
     feedback_so_far a = Some k \<and> k \<noteq> []"
  using find_guess_frame [of a] by (auto split: if_splits)

lemma find_guess_empty_history:
  "feedback_so_far a = Some [] \<Longrightarrow> snd (find_guess a) = a"
  using find_guess_frame [of a] by auto

text \<open>
  With a non-empty list to sweep, well-formed words and a game begun, the selector returns
  the first guess of least score.
\<close>

lemma find_guess_first_min:
  assumes "can_guess a = allowed a" "allowed a \<noteq> []"
    and "\<forall>g\<in>set (allowed a). 5 \<le> length g" "\<forall>w\<in>set (pool a). 5 \<le> length w"
    and "feedback_so_far a \<noteq> None"
  shows "\<exists>t i s. fst (find_guess a) = Inr (Some t)
           \<and> i < length (allowed a) \<and> val t = allowed a ! i
           \<and> val t \<in> set (allowed a)
           \<and> score_of (val t) 0 (pool a) = Inr s
           \<and> (\<forall>j<length (allowed a). \<exists>s'. score_of (allowed a ! j) 0 (pool a) = Inr s'
                  \<and> s \<le> s' \<and> (j < i \<longrightarrow> s < s'))"
proof -
  have "\<forall>g\<in>set (allowed a). \<exists>s. score_of g 0 (pool a) = Inr s"
    using assms(3,4) by (auto intro: score_of_returns)
  then have "\<exists>sc. \<forall>g\<in>set (allowed a). score_of g 0 (pool a) = Inr (sc g)"
    by (rule bchoice)
  then obtain sc where sc: "\<forall>g\<in>set (allowed a). score_of g 0 (pool a) = Inr (sc g)"
    by blast
  from find_guess_loop_first_min [OF sc, of None None] assms(2)
  obtain bs' i t where
    loop: "find_guess_loop (pool a) (allowed a) (None, None) = Inr (Some t, bs')" and
    i: "i < length (allowed a)" "val t = allowed a ! i" and
    least: "\<forall>j<length (allowed a). sc (allowed a ! i) \<le> sc (allowed a ! j)" and
    first: "\<forall>j<i. sc (allowed a ! i) < sc (allowed a ! j)"
    by auto
  from assms(5) obtain key where key: "feedback_so_far a = Some key" by auto
  have res: "fst (find_guess a) = Inr (Some t)"
    unfolding find_guess_def by (simp add: assms(1) loop key)
  have mem: "val t \<in> set (allowed a)" using i by simp
  have s: "score_of (val t) 0 (pool a) = Inr (sc (allowed a ! i))"
    using sc mem i(2) by simp
  have "\<forall>j<length (allowed a). \<exists>s'. score_of (allowed a ! j) 0 (pool a) = Inr s'
          \<and> sc (allowed a ! i) \<le> s' \<and> (j < i \<longrightarrow> sc (allowed a ! i) < s')"
    using sc least first by auto
  with res i mem s show ?thesis by blast
qed

text \<open>
  Claim C5. Let the agent sweep its allowed-guess list (\<open>can_guess\<close> is that list: the
  constructor and \<open>first_guess\<close> assign it and nothing else does), let the list be
  non-empty, let the guesses and the pool's words have at least five letters, and let a
  game have begun (the feedback history is a string). Then \<open>find_guess\<close> returns a tree
  whose root word is a member of the list, at some index \<open>i\<close>; its score, the number the
  scorer returns for it, is at most the score of every guess of the list, and strictly
  below the score of every guess before \<open>i\<close>: a strictly lower score wins, and among equal
  scores the earliest guess is kept. With the allowed list beast, slate and the pool
  stone, shark, crisp, beast, moist, found the selector returns slate, whose score
  \<open>1 - 2 ^ -53\<close> is below the score 1 of beast.
\<close>

theorem find_guess_minimal:
  assumes "can_guess a = allowed a" "allowed a \<noteq> []"
    and "\<forall>g\<in>set (allowed a). 5 \<le> length g" "\<forall>w\<in>set (pool a). 5 \<le> length w"
    and "feedback_so_far a \<noteq> None"
  shows "\<exists>t i s. fst (find_guess a) = Inr (Some t)
           \<and> i < length (allowed a) \<and> val t = allowed a ! i
           \<and> val t \<in> set (allowed a)
           \<and> score_of (val t) 0 (pool a) = Inr s
           \<and> (\<forall>j<length (allowed a). \<exists>s'. score_of (allowed a ! j) 0 (pool a) = Inr s'
                  \<and> s \<le> s' \<and> (j < i \<longrightarrow> s < s'))"
  using assms by (rule find_guess_first_min)

theorem find_guess_minimal_witness:
  "\<exists>t. fst (find_guess ((initialize_agent [''beast'', ''slate'']
                 [''stone'', ''shark'', ''crisp'', ''beast'', ''moist'', ''found''])
            \<lparr>feedback_so_far := Some []\<rparr>)) = Inr (Some t)
        \<and> val t = ''slate''"
proof -
  let ?six = "[''stone'', ''shark'', ''crisp'', ''beast'', ''moist'', ''found'']"
  let ?al = "[''beast'', ''slate'']"
  let ?a = "(initialize_agent ?al ?six)\<lparr>feedback_so_far := Some []\<rparr>"
  have al: "allowed ?a = ?al" and po: "pool ?a = ?six"
    by (simp_all add: initialize_agent_def)
  have "\<exists>t i s. fst (find_guess ?a) = Inr (Some t)
           \<and> i < length (allowed ?a) \<and> val t = allowed ?a ! i
           \<and> val t \<in> set (allowed ?a)
           \<and> score_of (val t) 0 (pool ?a) = Inr s
           \<and> (\<forall>j<length (allowed ?a). \<exists>s'. score_of (allowed ?a ! j) 0 (pool ?a) = Inr s'
                  \<and> s \<le> s' \<and> (j < i \<longrightarrow> s < s'))"
    by (rule find_guess_minimal) (simp_all add: initialize_agent_def)
  then obtain t i s where
    t: "fst (find_guess ?a) = Inr (Some t)" and
    i: "i < length ?al" "val t = ?al ! i" and
    s: "score_of (val t) 0 ?six = Inr s" and
    least: "\<forall>j<length ?al. \<exists>s'. score_of (?al ! j) 0 ?six = Inr s' \<and> s \<le> s' \<and> (j < i \<longrightarrow> s < s')"
    unfolding al po by blast
  have "i \<noteq> 0"
  proof
    assume i0: "i = 0"
    with i(2) s have s1: "s = 1" by (simp add: score_six_words)
    have "(1::nat) < length ?al" by simp
    with least obtain s' where s': "score_of (?al ! 1) 0 ?six = Inr s'" "s \<le> s'" by blast
    from s'(1) have "s' < 1" by (simp add: score_six_words)
    with s'(2) s1 show False by simp
  qed
  with i have "val t = ''slate''" by (cases i) simp_all
  with t show ?thesis by blast
qed

subsection \<open>The agent's methods\<close>

lemma first_guess_via_memo:
  "guess a = Some w \<Longrightarrow>
     first_guess_via sel a =
       (Inr w, a\<lparr>pool := possible a, can_guess := allowed a, feedback_so_far := Some []\<rparr>)"
  by (simp add: first_guess_via_def)

lemma first_guess_state:
  "\<exists>gu. snd (first_guess a) =
     a\<lparr>pool := possible a, can_guess := allowed a, feedback_so_far := Some [], guess := gu\<rparr>
     \<and> (gu = guess a \<or> guess a = None)
     \<and> (\<forall>w. fst (first_guess a) = Inr w \<longrightarrow> gu = Some w)"
proof -
  let ?a1 = "a\<lparr>pool := possible a, can_guess := allowed a, feedback_so_far := Some []\<rparr>"
  have fg: "snd (find_guess ?a1) = ?a1"
    by (rule find_guess_empty_history) simp
  have same: "?a1\<lparr>guess := guess a\<rparr> = ?a1" by simp
  show ?thesis
  proof (cases "guess a")
    case (Some w)
    then show ?thesis
      unfolding first_guess_def by (simp add: first_guess_via_memo)
  next
    case None
    obtain r a2 where r: "find_guess ?a1 = (r, a2)" by (cases "find_guess ?a1")
    with fg have a2: "a2 = ?a1" by simp
    show ?thesis
    proof (cases r)
      case (Inl e)
      then show ?thesis
        using None r a2 unfolding first_guess_def first_guess_via_def
        by (auto intro!: exI [of _ "None"])
    next
      case (Inr bt)
      then show ?thesis
        using None r a2 unfolding first_guess_def first_guess_via_def
        by (cases bt) (auto intro!: exI [of _ "None"])
    qed
  qed
qed

lemma first_guess_fields:
  "allowed (snd (first_guess a)) = allowed a"
  "possible (snd (first_guess a)) = possible a"
  "pool (snd (first_guess a)) = possible a"
  "can_guess (snd (first_guess a)) = allowed a"
  "feedback_so_far (snd (first_guess a)) = Some []"
  "cache (snd (first_guess a)) = cache a"
  using first_guess_state [of a] by auto

lemma first_guess_guess_kept:
  "guess a = Some w \<Longrightarrow> guess (snd (first_guess a)) = Some w"
  using first_guess_state [of a] by auto

lemma first_guess_again:
  assumes "first_guess a = (Inr w, a1)"
  shows "guess a1 = Some w \<and> first_guess a1 = (Inr w, a1)
         \<and> (\<forall>sel. first_guess_via sel a1 = (Inr w, a1))"
proof -
  from first_guess_state [of a] assms obtain gu where
    a1: "a1 = a\<lparr>pool := possible a, can_guess := allowed a, feedback_so_far := Some [],
                guess := gu\<rparr>" and gu: "gu = Some w"
    by auto
  have g: "guess a1 = Some w" using a1 gu by simp
  have same: "a1\<lparr>pool := possible a1, can_guess := allowed a1, feedback_so_far := Some []\<rparr> = a1"
    using a1 by simp
  have "\<forall>sel. first_guess_via sel a1 = (Inr w, a1)"
    using first_guess_via_memo [OF g] same by simp
  with g show ?thesis by (simp add: first_guess_def)
qed

lemma first_guess_fresh_returns:
  assumes "al \<noteq> []" "\<forall>g\<in>set al. 5 \<le> length g" "\<forall>w\<in>set po. 5 \<le> length w"
  shows "\<exists>w. fst (first_guess (initialize_agent al po)) = Inr w \<and> w \<in> set al"
proof -
  let ?a1 = "(initialize_agent al po)\<lparr>pool := possible (initialize_agent al po),
     can_guess := allowed (initialize_agent al po), feedback_so_far := Some []\<rparr>"
  have "\<exists>t i s. fst (find_guess ?a1) = Inr (Some t)
           \<and> i < length (allowed ?a1) \<and> val t = allowed ?a1 ! i
           \<and> val t \<in> set (allowed ?a1)
           \<and> score_of (val t) 0 (pool ?a1) = Inr s
           \<and> (\<forall>j<length (allowed ?a1). \<exists>s'. score_of (allowed ?a1 ! j) 0 (pool ?a1) = Inr s'
                  \<and> s \<le> s' \<and> (j < i \<longrightarrow> s < s'))"
    using assms by (intro find_guess_first_min) (simp_all add: initialize_agent_def)
  then obtain t where t: "fst (find_guess ?a1) = Inr (Some t)" "val t \<in> set al"
    by (auto simp add: initialize_agent_def)
  have g: "guess ?a1 = None" by (simp add: initialize_agent_def)
  have "fst (first_guess (initialize_agent al po)) = Inr (val t)"
    using t(1) g unfolding first_guess_def first_guess_via_def Let_def
    by (cases "find_guess ?a1") simp
  with t(2) show ?thesis by blast
qed

lemma next_guess_via_state:
  "snd (next_guess_via sel a) = a \<or> snd (next_guess_via sel a) = snd (sel a)"
  unfolding next_guess_via_def
  by (auto split: option.splits prod.splits sum.splits)

lemma next_guess_state:
  "snd (next_guess a) = a \<or> snd (next_guess a) = snd (find_guess a)"
  unfolding next_guess_def by (rule next_guess_via_state)

lemma next_guess_fields:
  "allowed (snd (next_guess a)) = allowed a"
  "possible (snd (next_guess a)) = possible a"
  "pool (snd (next_guess a)) = pool a"
  "can_guess (snd (next_guess a)) = can_guess a"
  "feedback_so_far (snd (next_guess a)) = feedback_so_far a"
  "guess (snd (next_guess a)) = guess a"
  using next_guess_state [of a] by (auto simp add: find_guess_fields)

lemma next_guess_cache_kept:
  "cache a k = Some v \<Longrightarrow> cache (snd (next_guess a)) k = Some v"
  using next_guess_state [of a] by (auto simp add: find_guess_cache_kept)

lemma next_guess_cache_new:
  "cache a k = None \<Longrightarrow> cache (snd (next_guess a)) k \<noteq> None \<Longrightarrow>
     feedback_so_far a = Some k \<and> k \<noteq> []"
  using next_guess_state [of a] find_guess_cache_new [of a k] by auto

lemma report_feedback_fields:
  "allowed (snd (report_feedback fpw a g fb)) = allowed a"
  "possible (snd (report_feedback fpw a g fb)) = possible a"
  "can_guess (snd (report_feedback fpw a g fb)) = can_guess a"
  "cache (snd (report_feedback fpw a g fb)) = cache a"
  "guess (snd (report_feedback fpw a g fb)) = guess a"
  unfolding report_feedback_def
  by (auto simp add: Let_def split: sum.splits option.splits)

lemma report_feedback_no_history:
  "feedback_so_far a = None \<Longrightarrow>
     fst (report_feedback fpw a g fb) = (case fpw g fb (pool a) of Inl e \<Rightarrow> Inl e | Inr _ \<Rightarrow> Inl TypeError)
     \<and> feedback_so_far (snd (report_feedback fpw a g fb)) = None"
  unfolding report_feedback_def
  by (auto simp add: Let_def split: sum.splits option.splits)

lemma step_cache_kept:
  "cache a k = Some v \<Longrightarrow> cache (step fpw a c) k = Some v"
  by (cases c) (simp_all add: first_guess_fields next_guess_cache_kept report_feedback_fields)

lemma step_cache_new:
  "cache a k = None \<Longrightarrow> cache (step fpw a c) k \<noteq> None \<Longrightarrow> k \<noteq> []"
  using next_guess_cache_new [of a k]
  by (cases c) (auto simp add: first_guess_fields report_feedback_fields)

lemma step_guess_kept:
  "guess a = Some w \<Longrightarrow> guess (step fpw a c) = Some w"
  by (cases c) (simp_all add: first_guess_guess_kept next_guess_fields report_feedback_fields)

lemma step_can_guess:
  "can_guess a = allowed a \<Longrightarrow>
     can_guess (step fpw a c) = allowed (step fpw a c) \<and> allowed (step fpw a c) = allowed a"
  by (cases c) (simp_all add: first_guess_fields next_guess_fields report_feedback_fields)

lemma run_append: "run fpw a (cs @ cs') = run fpw (run fpw a cs) cs'"
  by (simp add: run_def)

lemma run_cache_kept:
  "cache a k = Some v \<Longrightarrow> cache (run fpw a cs) k = Some v"
  unfolding run_def by (induction cs arbitrary: a) (simp_all add: step_cache_kept)

lemma run_cache_empty_key:
  "cache a [] = None \<Longrightarrow> cache (run fpw a cs) [] = None"
  unfolding run_def
proof (induction cs arbitrary: a)
  case Nil
  then show ?case by simp
next
  case (Cons c cs)
  have "cache (step fpw a c) [] = None"
    using step_cache_new [of a "[]" fpw c] Cons.prems
    by (cases "cache (step fpw a c) []") simp_all
  then show ?case using Cons.IH by simp
qed

lemma run_guess_kept:
  "guess a = Some w \<Longrightarrow> guess (run fpw a cs) = Some w"
  unfolding run_def by (induction cs arbitrary: a) (simp_all add: step_guess_kept)

lemma run_can_guess:
  "can_guess a = allowed a \<Longrightarrow>
     can_guess (run fpw a cs) = allowed a \<and> allowed (run fpw a cs) = allowed a"
  unfolding run_def
proof (induction cs arbitrary: a)
  case Nil
  then show ?case by simp
next
  case (Cons c cs)
  from step_can_guess [OF Cons.prems, of fpw c] Cons.IH [of "step fpw a c"]
  show ?case by simp
qed

lemma run_no_first_guess:
  "First_guess \<notin> set cs \<Longrightarrow> feedback_so_far a = None \<Longrightarrow>
     feedback_so_far (run fpw a cs) = None"
  unfolding run_def
proof (induction cs arbitrary: a)
  case Nil
  then show ?case by simp
next
  case (Cons c cs)
  have "feedback_so_far (step fpw a c) = None"
    using Cons.prems report_feedback_no_history [of a fpw]
    by (cases c) (simp_all add: next_guess_fields)
  with Cons show ?case by simp
qed

lemmas agent_eval = first_guess_def first_guess_via_def next_guess_def next_guess_via_def
  find_guess_def recursive_build_tree_def calculate_score.simps initialize_agent_def
  setdefault_def report_feedback_def run_def get_pool_def py_index_def float_eval

lemma first_guess_five_trees:
  "fst (first_guess (initialize_agent
          [''birch'', ''beech'', ''cedar'', ''ebony'', ''maple'']
          [''birch'', ''beech'', ''cedar'', ''ebony'', ''maple''])) = Inr ''birch''"
  by (simp add: agent_eval)

lemma next_guess_five_trees:
  "map_sum id (map_option val) (fst (find_guess ((initialize_agent
          [''birch'', ''maple'']
          [''birch'', ''beech'', ''cedar'', ''ebony'', ''maple''])\<lparr>feedback_so_far := Some ''gray''\<rparr>)))
     = Inr (Some ''birch'')"
  by (simp add: agent_eval)

lemma cache_after_one_game:
  "cache (run (\<lambda>g fb ws. Inr ws)
       (initialize_agent [''birch'', ''maple'']
          [''birch'', ''beech'', ''cedar'', ''ebony'', ''maple''])
       [First_guess, Report_feedback ''birch'' [''gray''], Next_guess]) ''gray'' = Some ''birch''"
  "guess (run (\<lambda>g fb ws. Inr ws)
       (initialize_agent [''birch'', ''maple'']
          [''birch'', ''beech'', ''cedar'', ''ebony'', ''maple''])
       [First_guess, Report_feedback ''birch'' [''gray''], Next_guess]) = Some ''birch''"
  by (simp_all add: agent_eval)

text \<open>
  Claim C6. Over any sequence of calls: an entry of the cache is never overwritten or
  removed (whatever a key maps to after some calls, it maps to after any further calls),
  so a key is written at most once; the empty history never becomes a key, from any
  agent whose cache has no such key and so from a fresh agent; \<open>find_guess\<close> changes the
  cache by at most one new entry, whose key is the current history, non-empty and absent
  before; \<open>first_guess\<close> leaves the cache as it is and keeps its result in the field
  \<open>guess\<close>, which, once set, keeps its value over all further calls while \<open>first_guess\<close>
  returns it whatever the selector would do, that is without computing it again.
\<close>

theorem cache_first_writer_wins:
  "(\<forall>k v. cache (run fpw a cs) k = Some v \<longrightarrow> cache (run fpw a (cs @ cs')) k = Some v)
   \<and> (cache a [] = None \<longrightarrow> cache (run fpw a cs) [] = None)
   \<and> cache (run fpw (initialize_agent al po) cs) [] = None
   \<and> (\<exists>c. snd (find_guess a) = a\<lparr>cache := c\<rparr>
          \<and> (c = cache a
             \<or> (\<exists>k v. feedback_so_far a = Some k \<and> k \<noteq> [] \<and> cache a k = None
                      \<and> c = (cache a)(k \<mapsto> v))))
   \<and> cache (snd (first_guess a)) = cache a
   \<and> (\<forall>w. guess (run fpw a cs) = Some w \<longrightarrow>
          guess (run fpw a (cs @ cs')) = Some w
          \<and> (\<forall>sel. fst (first_guess_via sel (run fpw a (cs @ cs'))) = Inr w))"
proof (intro conjI impI allI)
  show "cache (run fpw a (cs @ cs')) k = Some v" if "cache (run fpw a cs) k = Some v" for k v
    using that unfolding run_append by (rule run_cache_kept)
  show "cache (run fpw a cs) [] = None" if "cache a [] = None"
    using that by (rule run_cache_empty_key)
  show "cache (run fpw (initialize_agent al po) cs) [] = None"
    by (rule run_cache_empty_key) (simp add: initialize_agent_def)
  show "\<exists>c. snd (find_guess a) = a\<lparr>cache := c\<rparr>
          \<and> (c = cache a
             \<or> (\<exists>k v. feedback_so_far a = Some k \<and> k \<noteq> [] \<and> cache a k = None
                      \<and> c = (cache a)(k \<mapsto> v)))"
    by (rule find_guess_frame)
  show "cache (snd (first_guess a)) = cache a"
    by (rule first_guess_fields)
  fix w
  assume h: "guess (run fpw a cs) = Some w"
  then show g: "guess (run fpw a (cs @ cs')) = Some w"
    unfolding run_append by (rule run_guess_kept)
  fix sel
  show "fst (first_guess_via sel (run fpw a (cs @ cs'))) = Inr w"
    using first_guess_via_memo [OF g] by simp
qed

theorem cache_first_writer_wins_witness:
  "cache (run (\<lambda>g fb ws. Inr ws)
       (initialize_agent [''birch'', ''maple'']
          [''birch'', ''beech'', ''cedar'', ''ebony'', ''maple''])
       ([First_guess, Report_feedback ''birch'' [''gray''], Next_guess]
        @ [First_guess, Report_feedback ''maple'' [''gray''], Next_guess])) ''gray'' = Some ''birch''
   \<and> guess (run (\<lambda>g fb ws. Inr ws)
       (initialize_agent [''birch'', ''maple'']
          [''birch'', ''beech'', ''cedar'', ''ebony'', ''maple''])
       ([First_guess, Report_feedback ''birch'' [''gray''], Next_guess]
        @ [First_guess, Report_feedback ''maple'' [''gray''], Next_guess])) = Some ''birch''
   \<and> cache (run (\<lambda>g fb ws. Inr ws)
       (initialize_agent [''birch'', ''maple'']
          [''birch'', ''beech'', ''cedar'', ''ebony'', ''maple''])
       [First_guess, Report_feedback ''birch'' [''gray''], Next_guess]) [] = None"
proof -
  let ?f = "\<lambda>(g::string) (fb::string list) (ws::string list). (Inr ws :: py_error + string list)"
  let ?a = "initialize_agent [''birch'', ''maple'']
          [''birch'', ''beech'', ''cedar'', ''ebony'', ''maple'']"
  let ?cs = "[First_guess, Report_feedback ''birch'' [''gray''], Next_guess]"
  let ?cs' = "[First_guess, Report_feedback ''maple'' [''gray''], Next_guess]"
  note t = cache_first_writer_wins [of ?f ?a ?cs ?cs'
      "[''birch'', ''maple'']"
      "[''birch'', ''beech'', ''cedar'', ''ebony'', ''maple'']"]
  from t cache_after_one_game(1) have c: "cache (run ?f ?a (?cs @ ?cs')) ''gray'' = Some ''birch''"
    by blast
  from t cache_after_one_game(2) have g: "guess (run ?f ?a (?cs @ ?cs')) = Some ''birch''"
    by blast
  from t have e: "cache (run ?f ?a ?cs) [] = None" by blast
  from c g e show ?thesis by blast
qed

text \<open>
  Claim C7. \<open>next_guess\<close> decides in this order. With at most 3 words in the pool it
  returns \<^verbatim>\<open>self.pool[0]\<close>, the first word of the pool, whatever the selector and the
  cache hold, and changes nothing. Otherwise, if the feedback history
  is a key of the cache, it returns the cached word, whatever the selector would do, and
  changes nothing. Otherwise it calls the selector and returns the root word of its tree.
\<close>

theorem next_guess_decision_order:
  "(length (pool a) \<le> 3 \<longrightarrow>
      (\<forall>sel. next_guess_via sel a = ((case pool a of [] \<Rightarrow> Inl IndexError | w # _ \<Rightarrow> Inr w), a)))
   \<and> (3 < length (pool a) \<and> feedback_so_far a = Some k \<and> cache a k = Some w \<longrightarrow>
        (\<forall>sel. next_guess_via sel a = (Inr w, a)))
   \<and> (3 < length (pool a) \<and> (\<forall>k. feedback_so_far a = Some k \<longrightarrow> cache a k = None) \<longrightarrow>
        next_guess a =
          (case find_guess a of
             (Inl e, a2) \<Rightarrow> (Inl e, a2)
           | (Inr None, a2) \<Rightarrow> (Inl AttributeError, a2)
           | (Inr (Some t), a2) \<Rightarrow> (Inr (val t), a2)))"
proof (intro conjI impI allI)
  fix sel
  show "next_guess_via sel a = ((case pool a of [] \<Rightarrow> Inl IndexError | w # _ \<Rightarrow> Inr w), a)"
    if "length (pool a) \<le> 3"
    using that by (cases "pool a") (simp_all add: next_guess_via_def py_index_def)
  show "next_guess_via sel a = (Inr w, a)"
    if "3 < length (pool a) \<and> feedback_so_far a = Some k \<and> cache a k = Some w"
    using that by (simp add: next_guess_via_def)
next
  assume h: "3 < length (pool a) \<and> (\<forall>k. feedback_so_far a = Some k \<longrightarrow> cache a k = None)"
  then have "Option.bind (feedback_so_far a) (cache a) = None"
    by (cases "feedback_so_far a") simp_all
  with h show "next_guess a =
          (case find_guess a of
             (Inl e, a2) \<Rightarrow> (Inl e, a2)
           | (Inr None, a2) \<Rightarrow> (Inl AttributeError, a2)
           | (Inr (Some t), a2) \<Rightarrow> (Inr (val t), a2))"
    by (simp add: next_guess_def next_guess_via_def)
qed

theorem next_guess_decision_order_witness:
  "next_guess (initialize_agent [''birch'', ''beech''] [''cedar'', ''maple''])
     = (Inr ''cedar'', initialize_agent [''birch'', ''beech''] [''cedar'', ''maple''])
   \<and> fst (next_guess ((initialize_agent [''birch'']
            [''birch'', ''beech'', ''cedar'', ''ebony'', ''maple''])
          \<lparr>cache := [''gray'' \<mapsto> ''maple''], feedback_so_far := Some ''gray''\<rparr>)) = Inr ''maple''
   \<and> fst (next_guess ((initialize_agent
          [''birch'', ''maple'']
          [''birch'', ''beech'', ''cedar'', ''ebony'', ''maple''])\<lparr>feedback_so_far := Some ''gray''\<rparr>))
       = Inr ''birch''"
proof -
  let ?a1 = "initialize_agent [''birch'', ''beech''] [''cedar'', ''maple'']"
  let ?a2 = "(initialize_agent [''birch''] [''birch'', ''beech'', ''cedar'', ''ebony'', ''maple''])
          \<lparr>cache := [''gray'' \<mapsto> ''maple''], feedback_so_far := Some ''gray''\<rparr>"
  let ?a3 = "(initialize_agent
          [''birch'', ''maple'']
          [''birch'', ''beech'', ''cedar'', ''ebony'', ''maple''])\<lparr>feedback_so_far := Some ''gray''\<rparr>"
  have one: "next_guess ?a1 = (Inr ''cedar'', ?a1)"
    using next_guess_decision_order [of ?a1 "[]" "[]"]
    by (simp add: initialize_agent_def next_guess_def)
  have two: "fst (next_guess ?a2) = Inr ''maple''"
    using next_guess_decision_order [of ?a2 "''gray''" "''maple''"]
    by (simp add: initialize_agent_def next_guess_def)
  have "next_guess ?a3 =
          (case find_guess ?a3 of
             (Inl e, a2) \<Rightarrow> (Inl e, a2)
           | (Inr None, a2) \<Rightarrow> (Inl AttributeError, a2)
           | (Inr (Some t), a2) \<Rightarrow> (Inr (val t), a2))"
    using next_guess_decision_order [of ?a3 "[]" "[]"]
    by (simp add: initialize_agent_def)
  then have three: "fst (next_guess ?a3) = Inr ''birch''"
    using next_guess_five_trees
    by (cases "find_guess ?a3") (auto split: sum.splits option.splits)
  from one two three show ?thesis by blast
qed

text \<open>
  Claim C8. If a call of \<open>first_guess\<close> returns a word, on a fresh agent or any other,
  a second call right after it returns the same word and leaves the agent unchanged, and
  it does so whatever the selector would do: the word comes from the field \<open>guess\<close>, no
  search is made. On a fresh agent with a non-empty allowed list, whose words and whose
  possible answers have at least five letters, the first call does return a word of the
  allowed list, and so does the second, the same one.
\<close>

theorem first_guess_idempotent:
  "(first_guess a = (Inr w, a1) \<longrightarrow>
      guess a1 = Some w \<and> first_guess a1 = (Inr w, a1)
      \<and> (\<forall>sel. first_guess_via sel a1 = (Inr w, a1)))
   \<and> (al \<noteq> [] \<and> (\<forall>g\<in>set al. 5 \<le> length g) \<and> (\<forall>v\<in>set po. 5 \<le> length v) \<longrightarrow>
        (\<exists>u a2. first_guess (initialize_agent al po) = (Inr u, a2) \<and> u \<in> set al
           \<and> first_guess a2 = (Inr u, a2)
           \<and> (\<forall>sel. first_guess_via sel a2 = (Inr u, a2))))"
proof (rule conjI; rule impI)
  show "guess a1 = Some w \<and> first_guess a1 = (Inr w, a1)
      \<and> (\<forall>sel. first_guess_via sel a1 = (Inr w, a1))" if "first_guess a = (Inr w, a1)"
    using that by (rule first_guess_again)
  assume "al \<noteq> [] \<and> (\<forall>g\<in>set al. 5 \<le> length g) \<and> (\<forall>v\<in>set po. 5 \<le> length v)"
  then obtain u where u: "fst (first_guess (initialize_agent al po)) = Inr u" "u \<in> set al"
    using first_guess_fresh_returns [of al po] by blast
  let ?a2 = "snd (first_guess (initialize_agent al po))"
  have e: "first_guess (initialize_agent al po) = (Inr u, ?a2)"
    using u(1) by (simp add: prod_eq_iff)
  from first_guess_again [OF e] e u(2)
  show "\<exists>u a2. first_guess (initialize_agent al po) = (Inr u, a2) \<and> u \<in> set al
           \<and> first_guess a2 = (Inr u, a2)
           \<and> (\<forall>sel. first_guess_via sel a2 = (Inr u, a2))"
    by blast
qed

theorem first_guess_idempotent_witness:
  "fst (first_guess (initialize_agent
          [''birch'', ''beech'', ''cedar'', ''ebony'', ''maple'']
          [''birch'', ''beech'', ''cedar'', ''ebony'', ''maple''])) = Inr ''birch''
   \<and> fst (first_guess (snd (first_guess (initialize_agent
          [''birch'', ''beech'', ''cedar'', ''ebony'', ''maple'']
          [''birch'', ''beech'', ''cedar'', ''ebony'', ''maple''])))) = Inr ''birch''
   \<and> (\<exists>u a2. first_guess (initialize_agent
          [''birch'', ''beech'', ''cedar'', ''ebony'', ''maple'']
          [''birch'', ''beech'', ''cedar'', ''ebony'', ''maple'']) = (Inr u, a2)
         \<and> first_guess a2 = (Inr u, a2))"
proof -
  let ?ws = "[''birch'', ''beech'', ''cedar'', ''ebony'', ''maple'']"
  let ?a = "initialize_agent ?ws ?ws"
  have e: "first_guess ?a = (Inr ''birch'', snd (first_guess ?a))"
    using first_guess_five_trees by (simp add: prod_eq_iff)
  note t = first_guess_idempotent [of ?a "''birch''" "snd (first_guess ?a)" ?ws ?ws]
  from t e have again: "first_guess (snd (first_guess ?a)) = (Inr ''birch'', snd (first_guess ?a))"
    by blast
  have "?ws \<noteq> [] \<and> (\<forall>g\<in>set ?ws. 5 \<le> length g) \<and> (\<forall>v\<in>set ?ws. 5 \<le> length v)"
    by simp
  with t have "\<exists>u a2. first_guess ?a = (Inr u, a2) \<and> first_guess a2 = (Inr u, a2)"
    by blast
  with again first_guess_five_trees show ?thesis by simp
qed

text \<open>
  Claim C9. On an empty pool \<open>next_guess\<close> does not return: \<^verbatim>\<open>self.pool[0]\<close> raises
  \<^verbatim>\<open>IndexError\<close>, whatever the selector and the cache hold, and the agent is unchanged.
\<close>

theorem next_guess_empty_pool_raises:
  assumes "pool a = []"
  shows "next_guess a = (Inl IndexError, a) \<and> (\<forall>sel. next_guess_via sel a = (Inl IndexError, a))"
  using assms by (simp add: next_guess_def next_guess_via_def py_index_def)

theorem next_guess_empty_pool_raises_witness:
  "fst (next_guess (initialize_agent [''birch'', ''beech''] [])) = Inl IndexError"
  using next_guess_empty_pool_raises [of "initialize_agent [''birch'', ''beech''] []"]
  by (simp add: initialize_agent_def)

text \<open>
  Claim C10. On a fresh agent \<open>report_feedback\<close> raises: the filter's own exception if the
  filter raises, else \<^verbatim>\<open>TypeError\<close>, since the feedback history is \<^verbatim>\<open>None\<close>. The same holds
  after any sequence of calls without \<open>first_guess\<close>, which leaves the history \<^verbatim>\<open>None\<close>.
  After a call of \<open>first_guess\<close>, \<open>report_feedback\<close> returns whenever the filter does.
\<close>

theorem report_feedback_needs_first_guess:
  "fst (report_feedback fpw (initialize_agent al po) g fb) =
      (case fpw g fb po of Inl e \<Rightarrow> Inl e | Inr _ \<Rightarrow> Inl TypeError)
   \<and> (First_guess \<notin> set cs \<longrightarrow>
        feedback_so_far (run fpw (initialize_agent al po) cs) = None
        \<and> (\<exists>e. fst (report_feedback fpw (run fpw (initialize_agent al po) cs) g fb) = Inl e))
   \<and> (\<forall>filtered. fpw g fb (pool (snd (first_guess a))) = Inr filtered \<longrightarrow>
        fst (report_feedback fpw (snd (first_guess a)) g fb) = Inr ())"
proof (intro conjI impI allI)
  have init: "feedback_so_far (initialize_agent al po) = None" "pool (initialize_agent al po) = po"
    by (simp_all add: initialize_agent_def)
  show "fst (report_feedback fpw (initialize_agent al po) g fb) =
      (case fpw g fb po of Inl e \<Rightarrow> Inl e | Inr _ \<Rightarrow> Inl TypeError)"
    using report_feedback_no_history [OF init(1), of fpw g fb] by (simp add: init(2))
  show "feedback_so_far (run fpw (initialize_agent al po) cs) = None" if "First_guess \<notin> set cs"
    using that init(1) by (rule run_no_first_guess)
  show "\<exists>e. fst (report_feedback fpw (run fpw (initialize_agent al po) cs) g fb) = Inl e"
    if "First_guess \<notin> set cs"
  proof -
    have "feedback_so_far (run fpw (initialize_agent al po) cs) = None"
      using that init(1) by (rule run_no_first_guess)
    from report_feedback_no_history [OF this, of fpw g fb] show ?thesis
      by (auto split: sum.splits)
  qed
  fix filtered
  assume "fpw g fb (pool (snd (first_guess a))) = Inr filtered"
  then show "fst (report_feedback fpw (snd (first_guess a)) g fb) = Inr ()"
    by (simp add: report_feedback_def Let_def first_guess_fields)
qed

theorem report_feedback_needs_first_guess_witness:
  "fst (report_feedback (\<lambda>g fb ws. Inr ws) (initialize_agent [''birch''] [''birch''])
          ''birch'' [''green'', ''green'', ''green'', ''green'', ''green'']) = Inl TypeError
   \<and> feedback_so_far (run (\<lambda>g fb ws. Inr ws) (initialize_agent [''birch''] [''birch''])
        [Next_guess, Report_feedback ''birch'' [''gray'']]) = None
   \<and> fst (report_feedback (\<lambda>g fb ws. Inr ws)
            (snd (first_guess (initialize_agent [''birch''] [''birch''])))
          ''birch'' [''green'', ''green'', ''green'', ''green'', ''green'']) = Inr ()"
  using report_feedback_needs_first_guess [of "\<lambda>g fb ws. Inr ws" "[''birch'']" "[''birch'']"
      "''birch''" "[''green'', ''green'', ''green'', ''green'', ''green'']"
      "[Next_guess, Report_feedback ''birch'' [''gray'']]"
      "initialize_agent [''birch''] [''birch'']"]
  by simp

end
